theory Spec2Isabelle
  imports Main "HOL-Library.Word"
begin

unbundle bit_operations_syntax

section \<open>The delete queue of \<^verbatim>\<open>src/replication/delete_queue.cc\<close>\<close>

text \<open>
  The delete queue is a root block holding a magic tag, the primal offset and two large
  buffer references: the timestamps-and-offsets buffer (the Offset Index of the
  specification) and the keys buffer (the Key Log). The model follows the source function
  by function. Values of type \<^verbatim>\<open>off64_t\<close> and \<^verbatim>\<open>int64_t\<close> are byte counts and byte
  positions; they are integers here, and the 8 bytes in which an offset is stored are
  written out where an entry is stored and read back (two's complement, 64 bit). The
  conversions between integer types, and the wrap-around of the differences of offsets,
  are written out as well.
  A \<^verbatim>\<open>rassert\<close> that fails stops the operation: it is an error value naming the assertion.
\<close>

subsection \<open>Machine integers\<close>

text \<open>
  The value that an \<^verbatim>\<open>int\<close> (32 bits) and an \<^verbatim>\<open>int64_t\<close> (64 bits) keep of an integer: two's
  complement, wrapping around. They stand where the code assigns to a variable of these
  types the result of a computation that can leave their range.
\<close>

definition to_int :: "int \<Rightarrow> int" where
  "to_int x = sint (word_of_int x :: 32 word)"

definition to_int64 :: "int \<Rightarrow> int" where
  "to_int64 x = sint (word_of_int x :: 64 word)"

text \<open>
  The value of an \<^verbatim>\<open>int64_t\<close> converted to \<^verbatim>\<open>size_t\<close> (unsigned, 64 bits), as happens to the
  left operand of \<^verbatim>\<open>t_o_ref->size % sizeof(t_and_o)\<close>: a negative value wraps around.
\<close>

definition to_size_t :: "int \<Rightarrow> int" where
  "to_size_t x = (if x < 0 then x + 2 ^ 64 else x)"

subsection \<open>Data\<close>

type_synonym byte = "8 word"

text \<open>
  Modelled from the spec: the type \<^verbatim>\<open>repli_timestamp\<close> is declared outside the source file; it
  wraps a 32-bit time value, the field \<^verbatim>\<open>time\<close> that the code compares. The proofs use only
  that these values are linearly ordered.
\<close>

type_synonym repli_timestamp = "32 word"

text \<open>
  Modelled from the spec: the type \<^verbatim>\<open>store_key_t\<close> is declared outside the source file; a key
  is a 1-byte length field followed by that many bytes of contents, the fields \<^verbatim>\<open>size\<close> and
  \<^verbatim>\<open>contents\<close> of the code.
\<close>

record store_key_t =
  size_key :: byte
  contents :: "byte list"

text \<open>
  Modelled from the spec: the type \<^verbatim>\<open>block_id_t\<close> and the constant \<^verbatim>\<open>NULL_BLOCK_ID\<close> are
  declared outside the source file; a block pointer is either cleared (null) or names a
  block.
\<close>

datatype block_id_t = NULL_BLOCK_ID | Block_id nat

text \<open>
  Modelled from the spec: the type \<^verbatim>\<open>large_buf_ref\<close> is declared outside the source file; the
  reference record of a large buffer, with the fields \<^verbatim>\<open>size\<close>, \<^verbatim>\<open>offset\<close> and \<^verbatim>\<open>block_ids\<close> that
  the code writes. Unallocated is size 0 with every block id null.
\<close>

record large_buf_ref =
  size_lb :: int
  offset_lb :: int
  block_ids :: "block_id_t list"

text \<open>\<^verbatim>\<open>struct t_and_o\<close>, packed: a timestamp (4 bytes) and an offset (8 bytes).\<close>

record t_and_o =
  timestamp :: repli_timestamp
  offset :: int

text \<open>
  The root block \<^verbatim>\<open>delete_queue_block_t\<close>: its magic tag, and what the accessors
  \<^verbatim>\<open>primal_offset\<close>, \<^verbatim>\<open>timestamps_and_offsets_largebuf\<close> and \<^verbatim>\<open>keys_largebuf\<close> of the source
  file point to in it.
\<close>

record delete_queue_block_t =
  magic :: string
  primal_offset :: int
  timestamps_and_offsets_largebuf :: large_buf_ref
  keys_largebuf :: large_buf_ref

text \<open>
  The sizes of the types declared outside the source file, which the layout constants of
  namespace \<^verbatim>\<open>delete_queue\<close> are computed from; a parameter of the functions that use them.
  The constants are of type \<^verbatim>\<open>const int\<close>, and \<^verbatim>\<open>keys_largebuf_ref_size\<close> returns an \<^verbatim>\<open>int\<close>.
\<close>

record type_sizes =
  sizeof_block_magic_t :: int
  sizeof_off64_t :: int
  sizeof_large_buf_ref :: int
  offsetof_block_ids :: int
  sizeof_block_id_t :: int

definition PRIMAL_OFFSET_OFFSET :: "type_sizes \<Rightarrow> int" where
  "PRIMAL_OFFSET_OFFSET sz = to_int (sizeof_block_magic_t sz)"

definition TIMESTAMPS_AND_OFFSETS_OFFSET :: "type_sizes \<Rightarrow> int" where
  "TIMESTAMPS_AND_OFFSETS_OFFSET sz = to_int (PRIMAL_OFFSET_OFFSET sz + sizeof_off64_t sz)"

definition TIMESTAMPS_AND_OFFSETS_SIZE :: "type_sizes \<Rightarrow> int" where
  "TIMESTAMPS_AND_OFFSETS_SIZE sz = to_int (sizeof_large_buf_ref sz + 3 * sizeof_block_id_t sz)"

definition keys_largebuf_ref_size :: "type_sizes \<Rightarrow> int \<Rightarrow> int" where
  "keys_largebuf_ref_size sz block_size =
     to_int (block_size - (TIMESTAMPS_AND_OFFSETS_OFFSET sz + TIMESTAMPS_AND_OFFSETS_SIZE sz))"

text \<open>
  An example of sizes: a 4-byte magic, 8-byte offsets, a reference whose block ids begin
  after two 8-byte fields, and 4-byte block ids.
\<close>

definition sizes_64 :: type_sizes where
  "sizes_64 = \<lparr>sizeof_block_magic_t = 4, sizeof_off64_t = 8, sizeof_large_buf_ref = 16,
     offsetof_block_ids = 16, sizeof_block_id_t = 4\<rparr>"

text \<open>The assertions of the source file.\<close>

datatype rassert =
  Rassert_t_o_size_multiple      \<comment> \<open>\<^verbatim>\<open>t_o_ref->size % sizeof(t_and_o) == 0\<close>\<close>
  | Rassert_begin_found          \<comment> \<open>\<^verbatim>\<open>begin_found\<close>\<close>
  | Rassert_begin_le_end         \<comment> \<open>\<^verbatim>\<open>begin_offset <= end_offset\<close>\<close>
  | Rassert_key_fits             \<comment> \<open>\<^verbatim>\<open>k->size + 1 <= e - p\<close>\<close>
  | Rassert_ids_bytes            \<comment> \<open>\<^verbatim>\<open>ids_bytes > 0\<close>\<close>

subsection \<open>Initialisation\<close>

text \<open>
  The loop of \<^verbatim>\<open>initialize_large_buf_ref\<close>: \<^verbatim>\<open>ref->block_ids[i] = NULL_BLOCK_ID\<close> for \<^verbatim>\<open>i < e\<close>,
  where \<^verbatim>\<open>e\<close> is \<^verbatim>\<open>ids_bytes / sizeof(block_id_t)\<close>, a division of the positive number of bytes
  that the assertion has let through. Both \<^verbatim>\<open>ids_bytes\<close> and \<^verbatim>\<open>e\<close> are of type \<^verbatim>\<open>int\<close>.
\<close>

function clear_block_ids :: "int \<Rightarrow> int \<Rightarrow> block_id_t list \<Rightarrow> block_id_t list" where
  "clear_block_ids i e ids =
     (if i < e then clear_block_ids (i + 1) e (ids[nat i := NULL_BLOCK_ID]) else ids)"
  by pat_completeness auto
termination
  by (relation "measure (\<lambda>(i, e, ids). nat (e - i))") auto

declare clear_block_ids.simps [simp del]

definition initialize_large_buf_ref ::
  "type_sizes \<Rightarrow> large_buf_ref \<Rightarrow> int \<Rightarrow> rassert + large_buf_ref" where
  "initialize_large_buf_ref sz ref size_in_bytes =
     (let ids_bytes = to_int (size_in_bytes - offsetof_block_ids sz) in
      if \<not> ids_bytes > 0 then Inl Rassert_ids_bytes
      else Inr (ref\<lparr>offset_lb := 0, size_lb := 0,
             block_ids := clear_block_ids 0 (to_int (ids_bytes div sizeof_block_id_t sz))
                            (block_ids ref)\<rparr>))"

definition expected_magic :: string where
  "expected_magic = ''DelQ''"

definition initialize_empty_delete_queue ::
  "type_sizes \<Rightarrow> delete_queue_block_t \<Rightarrow> int \<Rightarrow> rassert + delete_queue_block_t" where
  "initialize_empty_delete_queue sz dqb block_size =
     (let dqb = dqb\<lparr>magic := expected_magic\<rparr>;
          dqb = dqb\<lparr>primal_offset := 0\<rparr>
      in case initialize_large_buf_ref sz (timestamps_and_offsets_largebuf dqb)
                (TIMESTAMPS_AND_OFFSETS_SIZE sz) of
           Inl a \<Rightarrow> Inl a
         | Inr t_and_o \<Rightarrow>
             (case initialize_large_buf_ref sz (keys_largebuf dqb)
                     (keys_largebuf_ref_size sz block_size) of
                Inl a \<Rightarrow> Inl a
              | Inr k \<Rightarrow>
                  Inr (dqb\<lparr>timestamps_and_offsets_largebuf := t_and_o, keys_largebuf := k\<rparr>)))"

text \<open>
  The number of block ids a reference of \<^verbatim>\<open>size_in_bytes\<close> bytes embeds: a reference laid
  out in that many bytes has exactly this many.
\<close>

definition embedded_ids :: "type_sizes \<Rightarrow> int \<Rightarrow> nat" where
  "embedded_ids sz size_in_bytes =
     nat ((size_in_bytes - offsetof_block_ids sz) div sizeof_block_id_t sz)"

text \<open>
  Sizes that the types can have: none is negative, a block id takes at least one byte, and
  the layout constants, which are sums of these sizes, fit an \<^verbatim>\<open>int\<close>.
\<close>

definition valid_sizes :: "type_sizes \<Rightarrow> bool" where
  "valid_sizes sz \<longleftrightarrow>
     0 \<le> sizeof_block_magic_t sz \<and> 0 \<le> sizeof_off64_t sz \<and> 0 \<le> sizeof_large_buf_ref sz \<and>
     0 \<le> offsetof_block_ids sz \<and> 0 < sizeof_block_id_t sz \<and>
     sizeof_block_magic_t sz + sizeof_off64_t sz + sizeof_large_buf_ref sz +
       3 * sizeof_block_id_t sz < 2 ^ 31"

subsection \<open>Large buffers\<close>

text \<open>
  Modelled from the spec: the class \<^verbatim>\<open>large_buf_t\<close> is outside the source file. A large
  buffer is a growable byte-addressable region reached through its reference; it supports
  allocate(initial size), append(delta bytes), read-at(offset, length) and
  write-at(offset, bytes). It is the reference together with the bytes of the region; the
  size recorded in the reference follows allocate and append, and fresh bytes are zero
  until they are filled. The blocks that back the region are not modelled, and a read that
  reaches outside the region gives the bytes that are inside it: the theorems about queues
  with consistent buffers read and write inside the region.
\<close>

type_synonym large_buf_t = "large_buf_ref \<times> byte list"

definition allocate :: "int \<Rightarrow> large_buf_t \<Rightarrow> large_buf_t" where
  "allocate n lb = ((fst lb)\<lparr>size_lb := n\<rparr>, replicate (nat n) 0)"

definition append_lb :: "int \<Rightarrow> large_buf_t \<Rightarrow> large_buf_t" where
  "append_lb n lb = ((fst lb)\<lparr>size_lb := size_lb (fst lb) + n\<rparr>, snd lb @ replicate (nat n) 0)"

definition fill_at :: "int \<Rightarrow> byte list \<Rightarrow> int \<Rightarrow> large_buf_t \<Rightarrow> large_buf_t" where
  "fill_at pos src n lb =
     (fst lb, take (nat pos) (snd lb) @ take (nat n) src @ drop (nat pos + nat n) (snd lb))"

definition read_at :: "int \<Rightarrow> int \<Rightarrow> large_buf_t \<Rightarrow> byte list" where
  "read_at pos n lb = take (nat n) (drop (nat pos) (snd lb))"

subsection \<open>Stored representations\<close>

text \<open>The bytes of a word, least significant first, and the word of such bytes.\<close>

definition le_bytes :: "nat \<Rightarrow> 'a::len word \<Rightarrow> byte list" where
  "le_bytes n w = map (\<lambda>i. ucast (drop_bit (8 * i) w)) [0..<n]"

fun le_word :: "byte list \<Rightarrow> 'a::len word" where
  "le_word [] = 0"
| "le_word (b # bs) = ucast b OR push_bit 8 (le_word bs)"

text \<open>The 12 bytes of a packed \<^verbatim>\<open>t_and_o\<close>, as \<^verbatim>\<open>fill_at\<close> copies and \<^verbatim>\<open>read_at\<close> restores them.\<close>

definition t_and_o_bytes :: "t_and_o \<Rightarrow> byte list" where
  "t_and_o_bytes tao =
     le_bytes 4 (timestamp tao) @ le_bytes 8 (word_of_int (offset tao) :: 64 word)"

definition t_and_o_of_bytes :: "byte list \<Rightarrow> t_and_o" where
  "t_and_o_of_bytes bs =
     \<lparr>timestamp = le_word (take 4 bs), offset = sint (le_word (take 8 (drop 4 bs)) :: 64 word)\<rparr>"

text \<open>The bytes at a \<^verbatim>\<open>store_key_t\<close>: the size byte, then the contents.\<close>

definition store_key_bytes :: "store_key_t \<Rightarrow> byte list" where
  "store_key_bytes key = size_key key # contents key"

subsection \<open>The queue: the root block and the contents of its two large buffers\<close>

record delete_queue =
  queue_root :: delete_queue_block_t
  t_o_contents :: "byte list"
  keys_contents :: "byte list"

definition t_o_largebuf :: "delete_queue \<Rightarrow> large_buf_t" where
  "t_o_largebuf q = (timestamps_and_offsets_largebuf (queue_root q), t_o_contents q)"

definition keys_largebuf_of :: "delete_queue \<Rightarrow> large_buf_t" where
  "keys_largebuf_of q = (keys_largebuf (queue_root q), keys_contents q)"

definition store_largebufs :: "delete_queue \<Rightarrow> large_buf_t \<Rightarrow> large_buf_t \<Rightarrow> delete_queue" where
  "store_largebufs q t_o keys =
     \<lparr>queue_root = (queue_root q)\<lparr>timestamps_and_offsets_largebuf := fst t_o,
                                  keys_largebuf := fst keys\<rparr>,
      t_o_contents = snd t_o, keys_contents = snd keys\<rparr>"

subsection \<open>\<^verbatim>\<open>add_key_to_delete_queue\<close>\<close>

datatype log_entry = LogWRN_out_of_order repli_timestamp repli_timestamp

text \<open>
  ``1. Possibly update the (timestamp, offset) queue.'' The result is the warnings logged
  and the timestamps-and-offsets buffer.
\<close>

definition update_t_o ::
  "int \<Rightarrow> int \<Rightarrow> repli_timestamp \<Rightarrow> large_buf_t \<Rightarrow> log_entry list \<times> large_buf_t" where
  "update_t_o primal keys_size ts t_o =
     (if size_lb (fst t_o) = 0 then
        let tao = \<lparr>timestamp = ts, offset = primal + keys_size\<rparr>;
            t_o = allocate 12 t_o
        in ([], fill_at 0 (t_and_o_bytes tao) 12 t_o)
      else
        let last_tao = t_and_o_of_bytes (read_at (size_lb (fst t_o) - 12) 12 t_o);
            out_of_order = (timestamp last_tao > ts);
            lg = (if out_of_order then [LogWRN_out_of_order (timestamp last_tao) ts] else []);
            ts = (if out_of_order then timestamp last_tao else ts)
        in if timestamp last_tao \<noteq> ts then
             let tao = \<lparr>timestamp = ts, offset = primal + keys_size\<rparr>;
                 t_o = append_lb 12 t_o
             in (lg, fill_at (size_lb (fst t_o) - 12) (t_and_o_bytes tao) 12 t_o)
           else (lg, t_o))"

text \<open>``2. Update the keys list.''\<close>

definition update_keys :: "store_key_t \<Rightarrow> large_buf_t \<Rightarrow> large_buf_t" where
  "update_keys key keys =
     (let n = 1 + uint (size_key key) in
      if size_lb (fst keys) = 0 then
        fill_at 0 (store_key_bytes key) n (allocate n keys)
      else
        let keys = append_lb n keys
        in fill_at (size_lb (fst keys) - n) (store_key_bytes key) n keys)"

definition add_key_to_delete_queue ::
  "delete_queue \<Rightarrow> repli_timestamp \<Rightarrow> store_key_t \<Rightarrow> rassert + (log_entry list \<times> delete_queue)" where
  "add_key_to_delete_queue q ts key =
     (let primal = primal_offset (queue_root q);
          t_o_ref = timestamps_and_offsets_largebuf (queue_root q);
          keys_ref = keys_largebuf (queue_root q)
      in if to_size_t (size_lb t_o_ref) mod 12 \<noteq> 0 then Inl Rassert_t_o_size_multiple
         else
           let (lg, t_o) = update_t_o primal (size_lb keys_ref) ts (t_o_largebuf q);
               keys = update_keys key (keys_largebuf_of q)
           in Inr (lg, store_largebufs q t_o keys))"

subsection \<open>\<^verbatim>\<open>dump_keys_from_delete_queue\<close>\<close>

text \<open>The calls made on the \<^verbatim>\<open>deletion_key_stream_receiver_t\<close>.\<close>

datatype receiver_call = Deletion_key store_key_t | Done_deletion_keys

text \<open>
  The scan of the timestamps-and-offsets buffer: the loop \<^verbatim>\<open>while (i < ie)\<close>, with the loop
  variables \<^verbatim>\<open>i\<close>, \<^verbatim>\<open>begin_found\<close> and \<^verbatim>\<open>begin_offset\<close> as arguments. It returns
  \<^verbatim>\<open>begin_found\<close>, \<^verbatim>\<open>begin_offset\<close>, \<^verbatim>\<open>end_found\<close> and \<^verbatim>\<open>end_offset\<close>. The two offsets are
  of type \<^verbatim>\<open>int64_t\<close>, and so is the difference \<^verbatim>\<open>tao.offset - primal_offset\<close> they receive:
  it wraps around.
\<close>

function scan_t_o ::
  "large_buf_t \<Rightarrow> int \<Rightarrow> repli_timestamp \<Rightarrow> repli_timestamp \<Rightarrow> int \<Rightarrow> int \<Rightarrow> bool \<Rightarrow> int
     \<Rightarrow> rassert + (bool \<times> int \<times> bool \<times> int)" where
  "scan_t_o t_o primal begin_timestamp end_timestamp ie i begin_found begin_offset =
     (if i < ie then
        let tao = t_and_o_of_bytes (read_at i 12 t_o);
            hit = (\<not> begin_found \<and> begin_timestamp \<le> timestamp tao);
            begin_offset = (if hit then to_int64 (offset tao - primal) else begin_offset);
            begin_found = (if hit then True else begin_found)
        in if end_timestamp \<le> timestamp tao then
             (if \<not> begin_found then Inl Rassert_begin_found
              else Inr (begin_found, begin_offset, True, to_int64 (offset tao - primal)))
           else scan_t_o t_o primal begin_timestamp end_timestamp ie (i + 12)
                  begin_found begin_offset
      else Inr (begin_found, begin_offset, False, 0))"
  by pat_completeness auto
termination
  by (relation "measure (\<lambda>(t_o, primal, b, e, ie, i, bf, bo). nat (ie - i))") auto

declare scan_t_o.simps [simp del]

text \<open>
  The walk over the fetched slice: the loop \<^verbatim>\<open>while (p < e)\<close>, with the bytes from \<^verbatim>\<open>p\<close> to
  \<^verbatim>\<open>e\<close> as argument. The key handed to the receiver is the one stored at \<^verbatim>\<open>p\<close>.
\<close>

fun deliver_keys :: "byte list \<Rightarrow> rassert + receiver_call list" where
  "deliver_keys [] = Inr []"
| "deliver_keys (b # rest) =
     (if \<not> uint b + 1 \<le> int (length (b # rest)) then Inl Rassert_key_fits
      else case deliver_keys (drop (unat b) rest) of
             Inl a \<Rightarrow> Inl a
           | Inr calls \<Rightarrow>
               Inr (Deletion_key \<lparr>size_key = b, contents = take (unat b) rest\<rparr> # calls))"

text \<open>
  The block that turns the timestamps into \<^verbatim>\<open>begin_offset\<close> and \<^verbatim>\<open>end_offset\<close>: the scan,
  \<^verbatim>\<open>goto done\<close> when no entry begins the range (no offsets), and the size of the keys buffer
  as \<^verbatim>\<open>end_offset\<close> when no entry ends it.
\<close>

definition lookup_offsets ::
  "delete_queue \<Rightarrow> repli_timestamp \<Rightarrow> repli_timestamp \<Rightarrow> rassert + (int \<times> int) option" where
  "lookup_offsets q begin_timestamp end_timestamp =
     (let primal = primal_offset (queue_root q);
          t_o_ref = timestamps_and_offsets_largebuf (queue_root q);
          keys_ref = keys_largebuf (queue_root q)
      in case scan_t_o (t_o_largebuf q) primal begin_timestamp end_timestamp
                (size_lb t_o_ref) 0 False 0 of
           Inl a \<Rightarrow> Inl a
         | Inr (begin_found, begin_offset, end_found, end_offset) \<Rightarrow>
             if \<not> begin_found then Inr None
             else Inr (Some (begin_offset,
                    if \<not> end_found then size_lb keys_ref else end_offset)))"

definition dump_keys_from_delete_queue ::
  "delete_queue \<Rightarrow> repli_timestamp \<Rightarrow> repli_timestamp \<Rightarrow> rassert + receiver_call list" where
  "dump_keys_from_delete_queue q begin_timestamp end_timestamp =
     (let t_o_ref = timestamps_and_offsets_largebuf (queue_root q);
          keys_ref = keys_largebuf (queue_root q)
      in if size_lb t_o_ref \<noteq> 0 \<and> size_lb keys_ref \<noteq> 0 then
           if to_size_t (size_lb t_o_ref) mod 12 \<noteq> 0 then Inl Rassert_t_o_size_multiple
           else
             case lookup_offsets q begin_timestamp end_timestamp of
               Inl a \<Rightarrow> Inl a
             | Inr None \<Rightarrow> Inr [Done_deletion_keys]
             | Inr (Some (begin_offset, end_offset)) \<Rightarrow>
                 if \<not> begin_offset \<le> end_offset then Inl Rassert_begin_le_end
                 else if begin_offset < end_offset then
                   let n = to_int64 (end_offset - begin_offset);
                       buf = read_at begin_offset n (keys_largebuf_of q)
                   in case deliver_keys buf of
                        Inl a \<Rightarrow> Inl a
                      | Inr calls \<Rightarrow> Inr (calls @ [Done_deletion_keys])
                 else Inr [Done_deletion_keys]
         else Inr [Done_deletion_keys])"

subsection \<open>Sequences of calls\<close>

text \<open>
  A queue whose root block has just been initialised: neither large buffer is allocated,
  so neither has bytes.
\<close>

definition empty_queue :: "delete_queue_block_t \<Rightarrow> delete_queue" where
  "empty_queue root = \<lparr>queue_root = root, t_o_contents = [], keys_contents = []\<rparr>"

text \<open>
  Successive calls of \<^verbatim>\<open>add_key_to_delete_queue\<close> on one queue, in the order of the list;
  the warnings are collected in the order they are logged.
\<close>

fun add_keys_to_delete_queue ::
  "delete_queue \<Rightarrow> (repli_timestamp \<times> store_key_t) list
     \<Rightarrow> rassert + (log_entry list \<times> delete_queue)" where
  "add_keys_to_delete_queue q [] = Inr ([], q)"
| "add_keys_to_delete_queue q ((ts, key) # ops) =
     (case add_key_to_delete_queue q ts key of
        Inl a \<Rightarrow> Inl a
      | Inr (lg, q') \<Rightarrow>
          (case add_keys_to_delete_queue q' ops of
             Inl a \<Rightarrow> Inl a
           | Inr (lg', q'') \<Rightarrow> Inr (lg @ lg', q'')))"

section \<open>Notions of the specification\<close>

text \<open>
  A key as the store hands it over: its contents are as long as its size byte says.
\<close>

definition valid_key :: "store_key_t \<Rightarrow> bool" where
  "valid_key key \<longleftrightarrow> length (contents key) = unat (size_key key)"

definition valid_keys :: "(repli_timestamp \<times> store_key_t) list \<Rightarrow> bool" where
  "valid_keys ops = list_all (\<lambda>x. valid_key (snd x)) ops"

text \<open>The values a stored offset can hold.\<close>

definition in_int64 :: "int \<Rightarrow> bool" where
  "in_int64 x \<longleftrightarrow> - (2 ^ 63) \<le> x \<and> x < 2 ^ 63"

text \<open>
  The entries of the Offset Index: the buffer read 12 bytes at a time, as the scan of
  \<^verbatim>\<open>dump_keys_from_delete_queue\<close> reads it.
\<close>

definition entries_of :: "large_buf_t \<Rightarrow> t_and_o list" where
  "entries_of t_o =
     map (\<lambda>j. t_and_o_of_bytes (read_at (12 * int j) 12 t_o)) [0..<nat (size_lb (fst t_o) div 12)]"

definition t_o_entries :: "delete_queue \<Rightarrow> t_and_o list" where
  "t_o_entries q = entries_of (t_o_largebuf q)"

text \<open>A large buffer holds as many bytes as its reference records.\<close>

definition consistent_lb :: "large_buf_t \<Rightarrow> bool" where
  "consistent_lb lb \<longleftrightarrow> 0 \<le> size_lb (fst lb) \<and> int (length (snd lb)) = size_lb (fst lb)"

definition buffers_consistent :: "delete_queue \<Rightarrow> bool" where
  "buffers_consistent q \<longleftrightarrow>
     consistent_lb (t_o_largebuf q) \<and> consistent_lb (keys_largebuf_of q) \<and>
     size_lb (timestamps_and_offsets_largebuf (queue_root q)) mod 12 = 0"

text \<open>The absolute offset of the end of the Key Log: where the next key will begin.\<close>

definition key_log_end :: "delete_queue \<Rightarrow> int" where
  "key_log_end q = primal_offset (queue_root q) + size_lb (keys_largebuf (queue_root q))"

text \<open>
  The invariant of the Offset Index: its size is a multiple of 12, its entries increase
  strictly in timestamp and in offset, and every offset lies before the end of the Key Log
  (which is what makes the next entry's offset larger than the stored ones).
\<close>

definition offset_index_inv :: "delete_queue \<Rightarrow> bool" where
  "offset_index_inv q \<longleftrightarrow>
     buffers_consistent q \<and>
     sorted_wrt (<) (map timestamp (t_o_entries q)) \<and>
     sorted_wrt (<) (map offset (t_o_entries q)) \<and>
     list_all (\<lambda>tao. offset tao < key_log_end q) (t_o_entries q)"

text \<open>What one call does to the entries of the Offset Index, and what it logs.\<close>

definition enqueue_entries :: "int \<Rightarrow> repli_timestamp \<Rightarrow> t_and_o list \<Rightarrow> t_and_o list" where
  "enqueue_entries off ts es =
     (if es = [] \<or> timestamp (last es) < ts then es @ [\<lparr>timestamp = ts, offset = off\<rparr>] else es)"

definition enqueue_log :: "repli_timestamp \<Rightarrow> t_and_o list \<Rightarrow> log_entry list" where
  "enqueue_log ts es =
     (if es \<noteq> [] \<and> ts < timestamp (last es) then [LogWRN_out_of_order (timestamp (last es)) ts]
      else [])"

text \<open>The bytes of a Key Log that holds the given keys, and their number.\<close>

definition keys_bytes :: "store_key_t list \<Rightarrow> byte list" where
  "keys_bytes ks = concat (map store_key_bytes ks)"

definition key_log_bytes :: "(repli_timestamp \<times> store_key_t) list \<Rightarrow> int" where
  "key_log_bytes ops = int (length (keys_bytes (map snd ops)))"

text \<open>
  The effective (clamped) timestamps of a sequence of calls, following the specification:
  the first call keeps its timestamp, and a later one is raised to the last effective
  timestamp when it is smaller.
\<close>

fun clamp_from :: "repli_timestamp \<Rightarrow> (repli_timestamp \<times> store_key_t) list
     \<Rightarrow> (repli_timestamp \<times> store_key_t) list" where
  "clamp_from t_last [] = []"
| "clamp_from t_last ((ts, key) # ops) = (max t_last ts, key) # clamp_from (max t_last ts) ops"

definition clamped ::
  "(repli_timestamp \<times> store_key_t) list \<Rightarrow> (repli_timestamp \<times> store_key_t) list" where
  "clamped ops = (case ops of [] \<Rightarrow> [] | (ts, key) # rest \<Rightarrow> (ts, key) # clamp_from ts rest)"

definition extend_clamped ::
  "(repli_timestamp \<times> store_key_t) list \<Rightarrow> (repli_timestamp \<times> store_key_t) list
     \<Rightarrow> (repli_timestamp \<times> store_key_t) list" where
  "extend_clamped eks ops = eks @ (if eks = [] then clamped ops else clamp_from (fst (last eks)) ops)"

text \<open>
  The range query of the specification: the enqueued pairs whose effective timestamp lies
  in \<open>[b, e)\<close>, in the order they were enqueued.
\<close>

definition in_range ::
  "repli_timestamp \<Rightarrow> repli_timestamp \<Rightarrow> (repli_timestamp \<times> store_key_t) list
     \<Rightarrow> (repli_timestamp \<times> store_key_t) list" where
  "in_range b e eks = filter (\<lambda>x. b \<le> fst x \<and> fst x < e) eks"

text \<open>
  The offset of the first entry whose timestamp is at least \<open>b\<close>, and \<open>d\<close> when there is
  none.
\<close>

fun first_offset :: "repli_timestamp \<Rightarrow> t_and_o list \<Rightarrow> int \<Rightarrow> int" where
  "first_offset b [] d = d"
| "first_offset b (tao # es) d = (if b \<le> timestamp tao then offset tao else first_offset b es d)"

text \<open>
  The queue holds the pairs \<open>eks\<close> (effective timestamp and key, in enqueue order): the Key
  Log is their keys, the Offset Index ends with the last effective timestamp, and the
  first entry at or after any timestamp \<open>b\<close> points behind the keys enqueued before \<open>b\<close>.
  The primal offset, the absolute offset at which the Key Log begins, is not negative, and
  the absolute offset at which the Key Log ends fits an \<^verbatim>\<open>off64_t\<close>.
\<close>

definition queue_holds :: "delete_queue \<Rightarrow> (repli_timestamp \<times> store_key_t) list \<Rightarrow> bool" where
  "queue_holds q eks \<longleftrightarrow>
     offset_index_inv q \<and>
     0 \<le> primal_offset (queue_root q) \<and> key_log_end q < 2 ^ 63 \<and>
     keys_contents q = keys_bytes (map snd eks) \<and>
     list_all (\<lambda>x. valid_key (snd x)) eks \<and>
     sorted (map fst eks) \<and>
     (t_o_entries q = [] \<longleftrightarrow> eks = []) \<and>
     (eks \<noteq> [] \<longrightarrow> timestamp (last (t_o_entries q)) = fst (last eks)) \<and>
     (\<forall>b. first_offset b (t_o_entries q) (key_log_end q) =
            primal_offset (queue_root q) + key_log_bytes (takeWhile (\<lambda>x. fst x < b) eks))"

text \<open>The scan of \<^verbatim>\<open>scan_t_o\<close>, on the entries instead of the bytes.\<close>

fun scan_entries ::
  "t_and_o list \<Rightarrow> int \<Rightarrow> repli_timestamp \<Rightarrow> repli_timestamp \<Rightarrow> bool \<Rightarrow> int
     \<Rightarrow> rassert + (bool \<times> int \<times> bool \<times> int)" where
  "scan_entries [] primal b e begin_found begin_offset = Inr (begin_found, begin_offset, False, 0)"
| "scan_entries (tao # es) primal b e begin_found begin_offset =
     (let hit = (\<not> begin_found \<and> b \<le> timestamp tao);
          begin_offset = (if hit then to_int64 (offset tao - primal) else begin_offset);
          begin_found = (if hit then True else begin_found)
      in if e \<le> timestamp tao then
           (if \<not> begin_found then Inl Rassert_begin_found
            else Inr (begin_found, begin_offset, True, to_int64 (offset tao - primal)))
         else scan_entries es primal b e begin_found begin_offset)"

subsection \<open>An example\<close>

text \<open>
  A block of 4096 bytes with stale contents, and the root block that initialising it gives.
\<close>

definition example_block :: delete_queue_block_t where
  "example_block =
     \<lparr>magic = ''????'', primal_offset = 77,
      timestamps_and_offsets_largebuf =
        \<lparr>size_lb = 5, offset_lb = 9, block_ids = [Block_id 1, Block_id 2, NULL_BLOCK_ID]\<rparr>,
      keys_largebuf =
        \<lparr>size_lb = 3, offset_lb = 1, block_ids = replicate 1010 (Block_id 8)\<rparr>\<rparr>"

definition example_root :: delete_queue_block_t where
  "example_root =
     \<lparr>magic = ''DelQ'', primal_offset = 0,
      timestamps_and_offsets_largebuf =
        \<lparr>size_lb = 0, offset_lb = 0, block_ids = replicate 3 NULL_BLOCK_ID\<rparr>,
      keys_largebuf =
        \<lparr>size_lb = 0, offset_lb = 0, block_ids = replicate 1010 NULL_BLOCK_ID\<rparr>\<rparr>"

text \<open>The keys \<^verbatim>\<open>a\<close>, \<^verbatim>\<open>b\<close> and \<^verbatim>\<open>c\<close> and the scenarios of the specification.\<close>

definition key_a :: store_key_t where
  "key_a = \<lparr>size_key = 1, contents = [97]\<rparr>"

definition key_b :: store_key_t where
  "key_b = \<lparr>size_key = 1, contents = [98]\<rparr>"

definition key_c :: store_key_t where
  "key_c = \<lparr>size_key = 1, contents = [99]\<rparr>"

definition scenario :: "(repli_timestamp \<times> store_key_t) list" where
  "scenario = [(100, key_a), (100, key_b), (105, key_c)]"

definition out_of_order_scenario :: "(repli_timestamp \<times> store_key_t) list" where
  "out_of_order_scenario = [(100, key_a), (50, key_b)]"

text \<open>The queue after (100, a) was enqueued on the initialised example block.\<close>

definition queue_a :: delete_queue where
  "queue_a =
     \<lparr>queue_root = example_root
        \<lparr>timestamps_and_offsets_largebuf :=
           \<lparr>size_lb = 12, offset_lb = 0, block_ids = replicate 3 NULL_BLOCK_ID\<rparr>,
         keys_largebuf :=
           \<lparr>size_lb = 2, offset_lb = 0, block_ids = replicate 1010 NULL_BLOCK_ID\<rparr>\<rparr>,
      t_o_contents = [100, 0, 0, 0, 0, 0, 0, 0, 0, 0, 0, 0],
      keys_contents = [1, 97]\<rparr>"

text \<open>The queue after (100, a), (100, b), (105, c) were enqueued on the initialised example block.\<close>

definition queue_abc :: delete_queue where
  "queue_abc =
     \<lparr>queue_root = example_root
        \<lparr>timestamps_and_offsets_largebuf :=
           \<lparr>size_lb = 24, offset_lb = 0, block_ids = replicate 3 NULL_BLOCK_ID\<rparr>,
         keys_largebuf :=
           \<lparr>size_lb = 6, offset_lb = 0, block_ids = replicate 1010 NULL_BLOCK_ID\<rparr>\<rparr>,
      t_o_contents = [100, 0, 0, 0, 0, 0, 0, 0, 0, 0, 0, 0, 105, 0, 0, 0, 4, 0, 0, 0, 0, 0, 0, 0],
      keys_contents = [1, 97, 1, 98, 1, 99]\<rparr>"

text \<open>
  The position in a Key Log holding the keys \<open>ks\<close> at which its \<open>n\<close>-th entry begins; for
  \<open>n = length ks\<close>, the end of the log.
\<close>

definition entry_boundary :: "store_key_t list \<Rightarrow> nat \<Rightarrow> int" where
  "entry_boundary ks n = int (length (keys_bytes (take n ks)))"

section \<open>Lemmas\<close>

lemma length_le_bytes: "length (le_bytes n w) = n"
  by (simp add: le_bytes_def)

lemma bit_le_word:
  "bit (le_word bs :: 'a::len word) n \<longleftrightarrow>
     n < LENGTH('a) \<and> n div 8 < length bs \<and> bit (bs ! (n div 8)) (n mod 8)"
proof (induction bs arbitrary: n)
  case Nil
  then show ?case by simp
next
  case (Cons b bs)
  show ?case
  proof (cases "n < 8")
    case True
    then show ?thesis by (auto simp add: bit_simps Cons dest: bit_imp_le_length)
  next
    case False
    then have "n div 8 = Suc ((n - 8) div 8)" "n mod 8 = (n - 8) mod 8"
      by (simp_all add: le_div_geq le_mod_geq)
    with False show ?thesis
      by (auto simp add: bit_simps Cons dest: bit_imp_le_length)
  qed
qed

lemma le_word_le_bytes:
  "LENGTH('a::len) \<le> 8 * n \<Longrightarrow> (le_word (le_bytes n w) :: 'a word) = w"
  by (rule bit_word_eqI) (auto simp add: bit_le_word le_bytes_def bit_simps)

lemma sint_word_of_int_64: "in_int64 x \<Longrightarrow> sint (word_of_int x :: 64 word) = x"
  by (simp add: in_int64_def sint_sbintrunc' signed_take_bit_int_eq_self)

lemma to_int64_id: "in_int64 x \<Longrightarrow> to_int64 x = x"
  by (simp add: to_int64_def sint_word_of_int_64)

lemma to_int_id: "- (2 ^ 31) \<le> x \<Longrightarrow> x < 2 ^ 31 \<Longrightarrow> to_int x = x"
  by (simp add: to_int_def sint_sbintrunc' signed_take_bit_int_eq_self)

lemma to_size_t_id: "0 \<le> x \<Longrightarrow> to_size_t x = x"
  by (simp add: to_size_t_def)

lemma in_int64_offset_of_bytes: "in_int64 (offset (t_and_o_of_bytes bs))"
  using sint_ge [of "le_word (take 8 (drop 4 bs)) :: 64 word"]
    sint_lt [of "le_word (take 8 (drop 4 bs)) :: 64 word"]
  by (simp add: t_and_o_of_bytes_def in_int64_def)

lemma in_int64_entries_of: "tao \<in> set (entries_of lb) \<Longrightarrow> in_int64 (offset tao)"
  by (auto simp add: entries_of_def in_int64_offset_of_bytes)

lemma length_t_and_o_bytes: "length (t_and_o_bytes tao) = 12"
  by (simp add: t_and_o_bytes_def length_le_bytes)

lemma t_and_o_of_bytes_t_and_o_bytes:
  "in_int64 (offset tao) \<Longrightarrow> t_and_o_of_bytes (t_and_o_bytes tao) = tao"
  by (simp add: t_and_o_of_bytes_def t_and_o_bytes_def length_le_bytes le_word_le_bytes
      sint_word_of_int_64)

lemma entries_of_unallocated: "size_lb (fst lb) = 0 \<Longrightarrow> entries_of lb = []"
  by (simp add: entries_of_def)

lemma length_entries_of: "length (entries_of lb) = nat (size_lb (fst lb) div 12)"
  by (simp add: entries_of_def)

lemma entries_of_first:
  "in_int64 (offset tao) \<Longrightarrow>
     entries_of (fill_at 0 (t_and_o_bytes tao) 12 (allocate 12 lb)) = [tao]"
  by (simp add: entries_of_def fill_at_def allocate_def read_at_def length_t_and_o_bytes
      t_and_o_of_bytes_t_and_o_bytes)

lemma fill_at_append_lb:
  assumes "consistent_lb lb" and "int (length src) = n"
  shows "fill_at (size_lb (fst (append_lb n lb)) - n) src n (append_lb n lb) =
           ((fst lb)\<lparr>size_lb := size_lb (fst lb) + n\<rparr>, snd lb @ src)"
  using assms by (auto simp add: fill_at_def append_lb_def consistent_lb_def)

lemma fill_at_allocate:
  assumes "int (length src) = n"
  shows "fill_at 0 src n (allocate n lb) = ((fst lb)\<lparr>size_lb := n\<rparr>, src)"
  using assms by (auto simp add: fill_at_def allocate_def)

lemma entries_of_snoc:
  assumes "consistent_lb (r, c)" and "size_lb r mod 12 = 0" and "in_int64 (offset tao)"
  shows "entries_of (r\<lparr>size_lb := size_lb r + 12\<rparr>, c @ t_and_o_bytes tao) = entries_of (r, c) @ [tao]"
proof -
  let ?n = "nat (size_lb r div 12)"
  from assms have len: "length c = 12 * ?n"
    by (auto simp add: consistent_lb_def)
  have n': "nat ((size_lb r + 12) div 12) = Suc ?n"
    using assms by (auto simp add: consistent_lb_def)
  have old: "read_at (12 * int j) 12 (r', c @ t_and_o_bytes tao) = read_at (12 * int j) 12 (r, c)"
    if "j < ?n" for j r'
    using that len by (simp add: read_at_def nat_mult_distrib)
  have new: "read_at (12 * int ?n) 12 (r', c @ t_and_o_bytes tao) = t_and_o_bytes tao" for r'
    using len by (simp add: read_at_def nat_mult_distrib length_t_and_o_bytes)
  have "entries_of (r\<lparr>size_lb := size_lb r + 12\<rparr>, c @ t_and_o_bytes tao) =
          map (\<lambda>j. t_and_o_of_bytes (read_at (12 * int j) 12
                 (r\<lparr>size_lb := size_lb r + 12\<rparr>, c @ t_and_o_bytes tao))) ([0..<?n] @ [?n])"
    by (simp add: entries_of_def n')
  also have "\<dots> = map (\<lambda>j. t_and_o_of_bytes (read_at (12 * int j) 12 (r, c))) [0..<?n] @
                   [t_and_o_of_bytes (t_and_o_bytes tao)]"
    unfolding map_append by (simp only: new list.map) (simp add: old)
  finally show ?thesis
    using assms(3) by (simp add: entries_of_def t_and_o_of_bytes_t_and_o_bytes)
qed

lemma read_last_entry:
  assumes "consistent_lb lb" and "size_lb (fst lb) mod 12 = 0" and "size_lb (fst lb) \<noteq> 0"
  shows "t_and_o_of_bytes (read_at (size_lb (fst lb) - 12) 12 lb) = last (entries_of lb)"
proof -
  let ?n = "nat (size_lb (fst lb) div 12)"
  from assms have "0 < ?n" and s: "size_lb (fst lb) = 12 * int ?n"
    by (auto simp add: consistent_lb_def)
  then obtain m where m: "?n = Suc m"
    by (cases ?n) auto
  have "size_lb (fst lb) - 12 = 12 * int m"
    using s m by simp
  then show ?thesis
    by (simp add: entries_of_def m)
qed

lemma consistent_lb_grow:
  "consistent_lb lb \<Longrightarrow> 0 \<le> n \<Longrightarrow> int (length src) = n \<Longrightarrow>
     consistent_lb ((fst lb)\<lparr>size_lb := size_lb (fst lb) + n\<rparr>, snd lb @ src)"
  by (simp add: consistent_lb_def)

lemma update_t_o_unallocated:
  assumes "size_lb (fst lb) = 0"
  shows "update_t_o primal keys_size ts lb =
           ([], (fst lb)\<lparr>size_lb := 12\<rparr>, t_and_o_bytes \<lparr>timestamp = ts, offset = primal + keys_size\<rparr>)"
  using assms by (simp add: update_t_o_def Let_def fill_at_allocate length_t_and_o_bytes)

lemma update_t_o_allocated:
  assumes "consistent_lb lb" and "size_lb (fst lb) mod 12 = 0" and "size_lb (fst lb) \<noteq> 0"
  shows "update_t_o primal keys_size ts lb =
           (enqueue_log ts (entries_of lb),
            if timestamp (last (entries_of lb)) < ts
            then ((fst lb)\<lparr>size_lb := size_lb (fst lb) + 12\<rparr>,
                  snd lb @ t_and_o_bytes \<lparr>timestamp = ts, offset = primal + keys_size\<rparr>)
            else lb)"
proof -
  have ne: "entries_of lb \<noteq> []"
    using assms by (auto simp add: entries_of_def consistent_lb_def)
  show ?thesis
    using assms(3) ne
    by (auto simp add: update_t_o_def Let_def read_last_entry [OF assms] enqueue_log_def
        fill_at_append_lb [OF assms(1)] length_t_and_o_bytes)
qed

lemma entries_of_update_t_o:
  assumes "consistent_lb lb" and "size_lb (fst lb) mod 12 = 0" and "in_int64 (primal + keys_size)"
  shows "entries_of (snd (update_t_o primal keys_size ts lb)) =
           enqueue_entries (primal + keys_size) ts (entries_of lb)"
proof (cases "size_lb (fst lb) = 0")
  case True
  have "entries_of ((fst lb)\<lparr>size_lb := 12\<rparr>, t_and_o_bytes \<lparr>timestamp = ts, offset = primal + keys_size\<rparr>) =
          [\<lparr>timestamp = ts, offset = primal + keys_size\<rparr>]"
    using entries_of_first [of "\<lparr>timestamp = ts, offset = primal + keys_size\<rparr>" lb] assms(3)
    by (simp add: fill_at_allocate length_t_and_o_bytes)
  with True show ?thesis
    by (simp add: update_t_o_unallocated enqueue_entries_def entries_of_unallocated)
next
  case False
  have ne: "entries_of lb \<noteq> []"
    using assms False by (auto simp add: entries_of_def consistent_lb_def)
  have "entries_of ((fst lb)\<lparr>size_lb := size_lb (fst lb) + 12\<rparr>,
            snd lb @ t_and_o_bytes \<lparr>timestamp = ts, offset = primal + keys_size\<rparr>) =
          entries_of lb @ [\<lparr>timestamp = ts, offset = primal + keys_size\<rparr>]"
    using entries_of_snoc [of "fst lb" "snd lb" "\<lparr>timestamp = ts, offset = primal + keys_size\<rparr>"] assms
    by simp
  with False ne show ?thesis
    by (simp add: update_t_o_allocated [OF assms(1,2)] enqueue_entries_def)
qed

lemma fst_update_t_o:
  assumes "consistent_lb lb" and "size_lb (fst lb) mod 12 = 0"
  shows "fst (update_t_o primal keys_size ts lb) = enqueue_log ts (entries_of lb)"
proof (cases "size_lb (fst lb) = 0")
  case True
  then show ?thesis
    by (simp add: update_t_o_unallocated enqueue_log_def entries_of_unallocated)
next
  case False
  then show ?thesis
    by (simp add: update_t_o_allocated [OF assms])
qed

lemma consistent_update_t_o:
  assumes "consistent_lb lb" and "size_lb (fst lb) mod 12 = 0"
  shows "consistent_lb (snd (update_t_o primal keys_size ts lb)) \<and>
         size_lb (fst (snd (update_t_o primal keys_size ts lb))) mod 12 = 0"
proof (cases "size_lb (fst lb) = 0")
  case True
  then show ?thesis
    by (simp add: update_t_o_unallocated consistent_lb_def length_t_and_o_bytes)
next
  case False
  then show ?thesis
    using assms
    by (simp add: update_t_o_allocated [OF assms] consistent_lb_def length_t_and_o_bytes)
qed

lemma size_lb_update_t_o:
  assumes "consistent_lb lb" and "size_lb (fst lb) mod 12 = 0"
  shows "size_lb (fst (snd (update_t_o primal keys_size ts lb))) =
           (if entries_of lb = [] \<or> timestamp (last (entries_of lb)) < ts
            then size_lb (fst lb) + 12 else size_lb (fst lb))"
proof (cases "size_lb (fst lb) = 0")
  case True
  then show ?thesis
    by (simp add: update_t_o_unallocated entries_of_unallocated)
next
  case False
  have ne: "entries_of lb \<noteq> []"
    using assms False by (auto simp add: entries_of_def consistent_lb_def)
  with False show ?thesis
    by (simp add: update_t_o_allocated [OF assms])
qed

lemma length_store_key_bytes:
  "valid_key key \<Longrightarrow> int (length (store_key_bytes key)) = 1 + uint (size_key key)"
  by (simp add: valid_key_def store_key_bytes_def)

lemma update_keys_append:
  assumes "consistent_lb lb" and "valid_key key"
  shows "update_keys key lb =
           ((fst lb)\<lparr>size_lb := size_lb (fst lb) + (1 + uint (size_key key))\<rparr>,
            snd lb @ store_key_bytes key)"
proof (cases "size_lb (fst lb) = 0")
  case True
  with assms(1) have "snd lb = []"
    by (simp add: consistent_lb_def)
  with True show ?thesis
    by (simp add: update_keys_def Let_def fill_at_allocate length_store_key_bytes [OF assms(2)])
next
  case False
  then show ?thesis
    by (simp add: update_keys_def Let_def fill_at_append_lb [OF assms(1)]
        length_store_key_bytes [OF assms(2)])
qed

lemma add_key_result:
  assumes "buffers_consistent q" and "valid_key key" and "in_int64 (key_log_end q)"
  obtains q' where
    "add_key_to_delete_queue q ts key = Inr (enqueue_log ts (t_o_entries q), q')"
    "t_o_entries q' = enqueue_entries (key_log_end q) ts (t_o_entries q)"
    "keys_contents q' = keys_contents q @ store_key_bytes key"
    "key_log_end q' = key_log_end q + 1 + uint (size_key key)"
    "primal_offset (queue_root q') = primal_offset (queue_root q)"
    "size_lb (timestamps_and_offsets_largebuf (queue_root q')) = 12 * int (length (t_o_entries q'))"
    "buffers_consistent q'"
proof -
  let ?primal = "primal_offset (queue_root q)"
  let ?ks = "size_lb (keys_largebuf (queue_root q))"
  let ?u = "update_t_o ?primal ?ks ts (t_o_largebuf q)"
  let ?k = "update_keys key (keys_largebuf_of q)"
  let ?q = "store_largebufs q (snd ?u) ?k"
  from assms(1) have c1: "consistent_lb (t_o_largebuf q)" and c2: "consistent_lb (keys_largebuf_of q)"
    and m: "size_lb (fst (t_o_largebuf q)) mod 12 = 0"
    by (simp_all add: buffers_consistent_def t_o_largebuf_def)
  have range: "in_int64 (?primal + ?ks)"
    using assms(3) by (simp add: key_log_end_def)
  have t_o': "t_o_largebuf ?q = snd ?u"
    by (simp add: t_o_largebuf_def store_largebufs_def)
  have keys': "keys_largebuf_of ?q = ?k"
    by (simp add: keys_largebuf_of_def store_largebufs_def)
  have k: "?k = ((fst (keys_largebuf_of q))\<lparr>size_lb := ?ks + (1 + uint (size_key key))\<rparr>,
                 keys_contents q @ store_key_bytes key)"
    using update_keys_append [OF c2 assms(2)] by (simp add: keys_largebuf_of_def)
  from c1 have nn: "to_size_t (size_lb (timestamps_and_offsets_largebuf (queue_root q))) =
      size_lb (timestamps_and_offsets_largebuf (queue_root q))"
    by (simp add: consistent_lb_def t_o_largebuf_def to_size_t_id)
  have 1: "add_key_to_delete_queue q ts key = Inr (enqueue_log ts (t_o_entries q), ?q)"
    using m fst_update_t_o [OF c1 m, of ?primal ?ks ts]
    by (simp add: add_key_to_delete_queue_def Let_def t_o_entries_def split_beta t_o_largebuf_def nn)
  have 2: "t_o_entries ?q = enqueue_entries (key_log_end q) ts (t_o_entries q)"
    using entries_of_update_t_o [OF c1 m range] by (simp add: t_o_entries_def t_o' key_log_end_def)
  have 3: "keys_contents ?q = keys_contents q @ store_key_bytes key"
    using k by (simp add: store_largebufs_def)
  have 5: "primal_offset (queue_root ?q) = primal_offset (queue_root q)"
    by (simp add: store_largebufs_def)
  have 4: "key_log_end ?q = key_log_end q + 1 + uint (size_key key)"
    using k by (simp add: key_log_end_def store_largebufs_def)
  have c1': "consistent_lb (snd ?u)" and m': "size_lb (fst (snd ?u)) mod 12 = 0"
    using consistent_update_t_o [OF c1 m] by simp_all
  have c2': "consistent_lb ?k"
    unfolding k using c2 length_store_key_bytes [OF assms(2)]
    by (simp add: consistent_lb_def keys_largebuf_of_def)
  have r': "timestamps_and_offsets_largebuf (queue_root ?q) = fst (snd ?u)"
    by (simp add: store_largebufs_def)
  have 7: "buffers_consistent ?q"
    unfolding buffers_consistent_def t_o' keys' r' using c1' m' c2' by blast
  have "size_lb (fst (snd ?u)) = 12 * int (length (entries_of (snd ?u)))"
    using c1' m' by (auto simp add: length_entries_of consistent_lb_def)
  then have 6: "size_lb (timestamps_and_offsets_largebuf (queue_root ?q)) = 12 * int (length (t_o_entries ?q))"
    unfolding t_o_entries_def t_o' r' .
  from 1 2 3 4 5 6 7 show ?thesis
    by (rule that)
qed

lemma sorted_wrt_snoc:
  "sorted_wrt P (xs @ [x]) \<longleftrightarrow> sorted_wrt P xs \<and> (\<forall>y\<in>set xs. P y x)"
  by (simp add: sorted_wrt_append)

lemma strict_sorted_le_last:
  fixes xs :: "'a::linorder list"
  assumes "sorted_wrt (<) xs" and "x \<in> set xs"
  shows "x \<le> last xs"
  using assms by (induction xs) (auto simp add: less_imp_le)

lemma offset_index_inv_add_key:
  assumes "offset_index_inv q" and "valid_key key" and "in_int64 (key_log_end q)"
  shows "\<exists>q'. add_key_to_delete_queue q ts key = Inr (enqueue_log ts (t_o_entries q), q') \<and>
              offset_index_inv q'"
proof -
  from assms(1) have bc: "buffers_consistent q"
    and st: "sorted_wrt (<) (map timestamp (t_o_entries q))"
    and so: "sorted_wrt (<) (map offset (t_o_entries q))"
    and lt: "\<forall>tao\<in>set (t_o_entries q). offset tao < key_log_end q"
    by (simp_all add: offset_index_inv_def list_all_iff)
  obtain q' where q':
    "add_key_to_delete_queue q ts key = Inr (enqueue_log ts (t_o_entries q), q')"
    "t_o_entries q' = enqueue_entries (key_log_end q) ts (t_o_entries q)"
    "key_log_end q' = key_log_end q + 1 + uint (size_key key)"
    "buffers_consistent q'"
    using add_key_result [OF bc assms(2,3)] by blast
  have grow: "key_log_end q < key_log_end q'"
    using q'(3) uint_nonnegative [of "size_key key"] by linarith
  have st': "sorted_wrt (<) (map timestamp (t_o_entries q'))"
  proof (cases "t_o_entries q = [] \<or> timestamp (last (t_o_entries q)) < ts")
    case True
    have "timestamp y < ts" if "y \<in> set (t_o_entries q)" for y
    proof -
      from that True have l: "timestamp (last (t_o_entries q)) < ts" and ne: "t_o_entries q \<noteq> []"
        by auto
      have "timestamp y \<le> last (map timestamp (t_o_entries q))"
        using strict_sorted_le_last [OF st] that by simp
      with l ne show ?thesis
        by (simp add: last_map)
    qed
    with True st show ?thesis
      by (simp add: q'(2) enqueue_entries_def sorted_wrt_snoc)
  next
    case False
    with st show ?thesis
      by (simp add: q'(2) enqueue_entries_def)
  qed
  have so': "sorted_wrt (<) (map offset (t_o_entries q'))"
    using so lt by (simp add: q'(2) enqueue_entries_def sorted_wrt_snoc)
  have lt': "\<forall>tao\<in>set (t_o_entries q'). offset tao < key_log_end q'"
    using lt grow by (auto simp add: q'(2) enqueue_entries_def)
  from q'(1,4) st' so' lt' show ?thesis
    by (auto simp add: offset_index_inv_def list_all_iff)
qed

lemma key_log_bytes_Nil [simp]: "key_log_bytes [] = 0"
  by (simp add: key_log_bytes_def keys_bytes_def)

lemma key_log_bytes_append [simp]:
  "key_log_bytes (xs @ ys) = key_log_bytes xs + key_log_bytes ys"
  by (simp add: key_log_bytes_def keys_bytes_def)

lemma key_log_bytes_single:
  "valid_key k \<Longrightarrow> key_log_bytes [(t, k)] = 1 + uint (size_key k)"
  using length_store_key_bytes [of k] by (simp add: key_log_bytes_def keys_bytes_def)

lemma key_log_bytes_nonneg: "0 \<le> key_log_bytes xs"
  by (simp add: key_log_bytes_def)

lemma key_log_bytes_Cons_pos: "0 < key_log_bytes (x # xs)"
  by (simp add: key_log_bytes_def keys_bytes_def store_key_bytes_def)

lemma first_offset_append:
  "first_offset b (es @ es') d = first_offset b es (first_offset b es' d)"
  by (induction es) simp_all

lemma first_offset_none:
  "\<forall>tao\<in>set es. timestamp tao < b \<Longrightarrow> first_offset b es d = d"
  by (induction es) (auto simp add: not_le [symmetric])

lemma first_offset_some:
  "\<exists>tao\<in>set es. b \<le> timestamp tao \<Longrightarrow> first_offset b es d = first_offset b es d'"
  by (induction es) auto

lemma first_offset_self:
  assumes "sorted_wrt (<) (map timestamp es)" and "tao \<in> set es"
  shows "first_offset (timestamp tao) es d = offset tao"
  using assms
proof (induction es)
  case Nil
  then show ?case by simp
next
  case (Cons x es)
  show ?case
  proof (cases "tao = x")
    case True
    then show ?thesis by simp
  next
    case False
    with Cons.prems have mem: "tao \<in> set es" and "timestamp x < timestamp tao"
      by auto
    then have "\<not> timestamp tao \<le> timestamp x"
      by simp
    with Cons.IH mem Cons.prems(1) show ?thesis
      by simp
  qed
qed

lemma sorted_le_last:
  fixes xs :: "'a::linorder list"
  assumes "sorted xs" and "x \<in> set xs"
  shows "x \<le> last xs"
  using assms by (induction xs) auto

lemma key_log_end_holds:
  assumes "queue_holds q eks"
  shows "key_log_end q = primal_offset (queue_root q) + key_log_bytes eks"
proof -
  from assms have "consistent_lb (keys_largebuf_of q)" and "keys_contents q = keys_bytes (map snd eks)"
    by (simp_all add: queue_holds_def offset_index_inv_def buffers_consistent_def)
  then show ?thesis
    by (simp add: key_log_end_def key_log_bytes_def consistent_lb_def keys_largebuf_of_def)
qed

lemma queue_holds_add_key:
  fixes ts :: repli_timestamp
  assumes holds: "queue_holds q eks" and valid: "valid_key key"
    and fits: "key_log_end q + 1 + uint (size_key key) < 2 ^ 63"
  defines "ts' \<equiv> (if eks = [] then ts else max (fst (last eks)) ts)"
  shows "\<exists>q'. add_key_to_delete_queue q ts key = Inr (enqueue_log ts (t_o_entries q), q') \<and>
              queue_holds q' (eks @ [(ts', key)]) \<and>
              key_log_end q' = key_log_end q + 1 + uint (size_key key)"
proof -
  let ?es = "t_o_entries q"
  let ?primal = "primal_offset (queue_root q)"
  from holds have inv: "offset_index_inv q"
    and pos: "0 \<le> ?primal"
    and kc: "keys_contents q = keys_bytes (map snd eks)"
    and vk: "list_all (\<lambda>x. valid_key (snd x)) eks"
    and se: "sorted (map fst eks)"
    and emp: "?es = [] \<longleftrightarrow> eks = []"
    and lst: "eks \<noteq> [] \<Longrightarrow> timestamp (last ?es) = fst (last eks)"
    and cut: "\<And>b. first_offset b ?es (key_log_end q) =
                   ?primal + key_log_bytes (takeWhile (\<lambda>x. fst x < b) eks)"
    by (simp_all add: queue_holds_def)
  from inv have bc: "buffers_consistent q" and st: "sorted_wrt (<) (map timestamp ?es)"
    by (simp_all add: offset_index_inv_def)
  have kle: "key_log_end q = ?primal + key_log_bytes eks"
    by (rule key_log_end_holds [OF holds])
  have range: "in_int64 (key_log_end q)"
    unfolding in_int64_def kle
    using pos fits key_log_bytes_nonneg [of eks] uint_nonnegative [of "size_key key"] kle
    by linarith
  obtain q' where q':
    "add_key_to_delete_queue q ts key = Inr (enqueue_log ts ?es, q')"
    "t_o_entries q' = enqueue_entries (key_log_end q) ts ?es"
    "keys_contents q' = keys_contents q @ store_key_bytes key"
    "key_log_end q' = key_log_end q + 1 + uint (size_key key)"
    "primal_offset (queue_root q') = ?primal"
    using add_key_result [OF bc valid range] by blast
  have inv': "offset_index_inv q'"
    using offset_index_inv_add_key [OF inv valid range, of ts] q'(1) by auto
  have kc': "keys_contents q' = keys_bytes (map snd (eks @ [(ts', key)]))"
    by (simp add: q'(3) kc keys_bytes_def)
  have vk': "list_all (\<lambda>x. valid_key (snd x)) (eks @ [(ts', key)])"
    using vk valid by simp
  have es_le: "timestamp tao \<le> fst (last eks)" if "tao \<in> set ?es" for tao
  proof -
    from that emp have ne: "eks \<noteq> []" "?es \<noteq> []"
      by auto
    have "timestamp tao \<le> last (map timestamp ?es)"
      using strict_sorted_le_last [OF st] that by simp
    with ne lst show ?thesis
      by (simp add: last_map)
  qed
  have eks_le: "fst x \<le> fst (last eks)" if "x \<in> set eks" for x
  proof -
    from that have ne: "eks \<noteq> []"
      by auto
    have "fst x \<le> last (map fst eks)"
      using sorted_le_last [OF se] that by simp
    with ne show ?thesis
      by (simp add: last_map)
  qed
  have "fst x \<le> ts'" if "x \<in> set eks" for x
    using eks_le [OF that] that by (auto simp add: ts'_def max_def)
  then have se': "sorted (map fst (eks @ [(ts', key)]))"
    using se by (simp add: sorted_append)
  have new: "t_o_entries q' =
               (if eks = [] \<or> fst (last eks) < ts
                then ?es @ [\<lparr>timestamp = ts', offset = key_log_end q\<rparr>] else ?es)"
    using emp lst by (auto simp add: q'(2) enqueue_entries_def ts'_def max_def)
  have emp': "t_o_entries q' = [] \<longleftrightarrow> eks @ [(ts', key)] = []"
    using emp by (simp add: new)
  have lst': "timestamp (last (t_o_entries q')) = fst (last (eks @ [(ts', key)]))"
    using emp lst by (auto simp add: new ts'_def max_def)
  have kle': "key_log_end q' = ?primal + key_log_bytes (eks @ [(ts', key)])"
    using q'(4) kle key_log_bytes_single [OF valid] by simp
  have cut': "first_offset b (t_o_entries q') (key_log_end q') =
                primal_offset (queue_root q') + key_log_bytes (takeWhile (\<lambda>x. fst x < b) (eks @ [(ts', key)]))"
    for b
  proof (cases "eks = []")
    case True
    with emp have "?es = []"
      by simp
    with True show ?thesis
      using kle kle' by (auto simp add: new q'(5) ts'_def not_le)
  next
    case False
    let ?T = "fst (last eks)"
    have T_le: "?T \<le> ts'"
      using False by (simp add: ts'_def)
    show ?thesis
    proof (cases "b \<le> ?T")
      case True
      have "last eks \<in> set eks"
        using False by simp
      with True have tw: "takeWhile (\<lambda>x. fst x < b) (eks @ [(ts', key)]) = takeWhile (\<lambda>x. fst x < b) eks"
        by (intro takeWhile_append1 [of "last eks"]) (simp_all add: not_less)
      from False emp lst True have "\<exists>tao\<in>set ?es. b \<le> timestamp tao"
        by (intro bexI [of _ "last ?es"]) simp_all
      then have "first_offset b (t_o_entries q') (key_log_end q') = first_offset b ?es (key_log_end q)"
        using first_offset_some [of ?es b] by (auto simp add: new first_offset_append)
      then show ?thesis
        by (simp add: tw cut q'(5))
    next
      case b: False
      then have all_es: "\<forall>tao\<in>set ?es. timestamp tao < b"
        using es_le by (auto simp add: not_le intro: le_less_trans)
      from b have all_eks: "\<forall>x\<in>set eks. fst x < b"
        using eks_le by (auto simp add: not_le intro: le_less_trans)
      then have tw: "takeWhile (\<lambda>x. fst x < b) (eks @ [(ts', key)]) =
                       eks @ (if ts' < b then [(ts', key)] else [])"
        by (simp add: takeWhile_append2)
      show ?thesis
      proof (cases "?T < ts")
        case True
        then have "ts' = ts"
          using False by (auto simp add: ts'_def max_def)
        with True False show ?thesis
          unfolding tw using kle kle' all_es
          by (auto simp add: new first_offset_append first_offset_none q'(5) not_le)
      next
        case F: False
        then have "ts' = ?T"
          using False by (auto simp add: ts'_def max_def)
        with F False b show ?thesis
          unfolding tw using kle' all_es by (auto simp add: new first_offset_none q'(5) not_le)
      qed
    qed
  qed
  have pos': "0 \<le> primal_offset (queue_root q') \<and> key_log_end q' < 2 ^ 63"
    using pos fits by (simp add: q'(4,5))
  have "queue_holds q' (eks @ [(ts', key)])"
    unfolding queue_holds_def using inv' pos' kc' vk' se' emp' lst' cut' by blast
  with q'(1,4) show ?thesis
    by blast
qed

lemma clear_block_ids_nth:
  assumes "0 \<le> i"
  shows "length (clear_block_ids i e ids) = length ids \<and>
         (\<forall>j<length ids. clear_block_ids i e ids ! j =
            (if nat i \<le> j \<and> int j < e then NULL_BLOCK_ID else ids ! j))"
  using assms
proof (induction i e ids rule: clear_block_ids.induct)
  case (1 i e ids)
  show ?case
  proof (cases "i < e")
    case True
    with 1 have IH: "length (clear_block_ids (i + 1) e (ids[nat i := NULL_BLOCK_ID])) = length ids"
      "\<And>j. j < length ids \<Longrightarrow> clear_block_ids (i + 1) e (ids[nat i := NULL_BLOCK_ID]) ! j =
            (if nat (i + 1) \<le> j \<and> int j < e then NULL_BLOCK_ID else ids[nat i := NULL_BLOCK_ID] ! j)"
      by simp_all
    have rec: "clear_block_ids i e ids = clear_block_ids (i + 1) e (ids[nat i := NULL_BLOCK_ID])"
      using True by (simp add: clear_block_ids.simps [of i])
    show ?thesis
      unfolding rec using "1.prems" True
      by (auto simp add: IH nth_list_update)
  next
    case False
    then have "clear_block_ids i e ids = ids"
      by (simp add: clear_block_ids.simps [of i])
    with False "1.prems" show ?thesis
      by auto
  qed
qed

lemma clear_block_ids_all:
  assumes "length ids = nat e"
  shows "clear_block_ids 0 e ids = replicate (nat e) NULL_BLOCK_ID"
proof (rule nth_equalityI)
  show "length (clear_block_ids 0 e ids) = length (replicate (nat e) NULL_BLOCK_ID)"
    using assms clear_block_ids_nth [of 0 e ids] by simp
  show "clear_block_ids 0 e ids ! j = replicate (nat e) NULL_BLOCK_ID ! j"
    if "j < length (clear_block_ids 0 e ids)" for j
    using that assms clear_block_ids_nth [of 0 e ids] by auto
qed

lemma layout_constants:
  assumes "valid_sizes sz"
  shows "PRIMAL_OFFSET_OFFSET sz = sizeof_block_magic_t sz"
    and "TIMESTAMPS_AND_OFFSETS_OFFSET sz = sizeof_block_magic_t sz + sizeof_off64_t sz"
    and "TIMESTAMPS_AND_OFFSETS_SIZE sz = sizeof_large_buf_ref sz + 3 * sizeof_block_id_t sz"
proof -
  from assms show 1: "PRIMAL_OFFSET_OFFSET sz = sizeof_block_magic_t sz"
    unfolding PRIMAL_OFFSET_OFFSET_def valid_sizes_def by (intro to_int_id) linarith+
  from assms show "TIMESTAMPS_AND_OFFSETS_OFFSET sz = sizeof_block_magic_t sz + sizeof_off64_t sz"
    unfolding TIMESTAMPS_AND_OFFSETS_OFFSET_def 1 valid_sizes_def by (intro to_int_id) linarith+
  from assms show "TIMESTAMPS_AND_OFFSETS_SIZE sz = sizeof_large_buf_ref sz + 3 * sizeof_block_id_t sz"
    unfolding TIMESTAMPS_AND_OFFSETS_SIZE_def valid_sizes_def by (intro to_int_id) linarith+
qed

lemma keys_largebuf_ref_size_exact:
  assumes "valid_sizes sz" and "0 \<le> block_size" and "block_size < 2 ^ 31"
  shows "keys_largebuf_ref_size sz block_size =
           block_size - (TIMESTAMPS_AND_OFFSETS_OFFSET sz + TIMESTAMPS_AND_OFFSETS_SIZE sz)"
    and "keys_largebuf_ref_size sz block_size < 2 ^ 31"
proof -
  have range: "- (2 ^ 31) \<le> block_size - (TIMESTAMPS_AND_OFFSETS_OFFSET sz + TIMESTAMPS_AND_OFFSETS_SIZE sz)"
    "block_size - (TIMESTAMPS_AND_OFFSETS_OFFSET sz + TIMESTAMPS_AND_OFFSETS_SIZE sz) < 2 ^ 31"
    using assms unfolding layout_constants [OF assms(1)] valid_sizes_def by linarith+
  then show 1: "keys_largebuf_ref_size sz block_size =
           block_size - (TIMESTAMPS_AND_OFFSETS_OFFSET sz + TIMESTAMPS_AND_OFFSETS_SIZE sz)"
    unfolding keys_largebuf_ref_size_def by (rule to_int_id)
  from range(2) show "keys_largebuf_ref_size sz block_size < 2 ^ 31"
    unfolding 1 .
qed

lemma initialize_large_buf_ref_unallocated:
  assumes "0 \<le> offsetof_block_ids sz" and "0 < sizeof_block_id_t sz"
    and "offsetof_block_ids sz < size_in_bytes" and "size_in_bytes < 2 ^ 31"
    and "length (block_ids ref) = embedded_ids sz size_in_bytes"
  shows "initialize_large_buf_ref sz ref size_in_bytes =
           Inr \<lparr>size_lb = 0, offset_lb = 0,
                block_ids = replicate (embedded_ids sz size_in_bytes) NULL_BLOCK_ID\<rparr>"
proof -
  let ?ids_bytes = "size_in_bytes - offsetof_block_ids sz"
  let ?e = "?ids_bytes div sizeof_block_id_t sz"
  from assms(1,3,4) have pos: "0 < ?ids_bytes" and lt: "?ids_bytes < 2 ^ 31"
    by linarith+
  then have 1: "to_int ?ids_bytes = ?ids_bytes"
    by (intro to_int_id) linarith+
  have "0 \<le> ?e"
    using pos assms(2) by (simp add: pos_imp_zdiv_nonneg_iff)
  moreover have "?e \<le> ?ids_bytes div 1"
    using pos assms(2) by (intro zdiv_mono2) linarith+
  ultimately have 2: "to_int ?e = ?e"
    using lt by (intro to_int_id) simp_all
  from assms(5) have "length (block_ids ref) = nat ?e"
    by (simp add: embedded_ids_def)
  from clear_block_ids_all [OF this] pos show ?thesis
    unfolding initialize_large_buf_ref_def Let_def 1 2 by (simp add: embedded_ids_def)
qed

lemma initialize_empty_delete_queue_sizes:
  assumes "initialize_empty_delete_queue sz dqb block_size = Inr root"
  shows "primal_offset root = 0 \<and> size_lb (timestamps_and_offsets_largebuf root) = 0 \<and>
         size_lb (keys_largebuf root) = 0"
  using assms
  by (auto simp add: initialize_empty_delete_queue_def initialize_large_buf_ref_def Let_def
      split: sum.splits if_splits)

lemma queue_holds_empty:
  assumes "initialize_empty_delete_queue sz dqb block_size = Inr root"
  shows "queue_holds (empty_queue root) []"
  using initialize_empty_delete_queue_sizes [OF assms]
  by (simp add: queue_holds_def offset_index_inv_def buffers_consistent_def consistent_lb_def
      t_o_largebuf_def keys_largebuf_of_def empty_queue_def t_o_entries_def entries_of_def
      keys_bytes_def key_log_end_def)

lemma key_log_end_empty:
  assumes "initialize_empty_delete_queue sz dqb block_size = Inr root"
  shows "key_log_end (empty_queue root) = 0"
  using initialize_empty_delete_queue_sizes [OF assms]
  by (simp add: key_log_end_def empty_queue_def)

lemma extend_clamped_Nil [simp]: "extend_clamped eks [] = eks"
  by (simp add: extend_clamped_def clamped_def)

lemma extend_clamped_Cons:
  "extend_clamped eks ((ts, key) # ops) =
     extend_clamped (eks @ [(if eks = [] then ts else max (fst (last eks)) ts, key)]) ops"
  by (simp add: extend_clamped_def clamped_def)

lemma queue_holds_add_keys:
  assumes "queue_holds q eks" and "valid_keys ops"
    and "key_log_end q + key_log_bytes ops < 2 ^ 63"
  shows "\<exists>lg q'. add_keys_to_delete_queue q ops = Inr (lg, q') \<and>
                 queue_holds q' (extend_clamped eks ops)"
  using assms
proof (induction ops arbitrary: q eks)
  case Nil
  then show ?case by simp
next
  case (Cons op ops)
  obtain ts key where op: "op = (ts, key)"
    by (cases op)
  from Cons.prems(2) have valid: "valid_key key" and valids: "valid_keys ops"
    by (simp_all add: op valid_keys_def)
  have split: "key_log_bytes (op # ops) = 1 + uint (size_key key) + key_log_bytes ops"
    using key_log_bytes_append [of "[op]" ops] key_log_bytes_single [OF valid, of ts]
    by (simp add: op)
  have nn: "0 \<le> key_log_bytes ops" "0 \<le> uint (size_key key)"
    by (simp_all add: key_log_bytes_nonneg)
  have fits: "key_log_end q + 1 + uint (size_key key) < 2 ^ 63"
    using Cons.prems(3) split nn by linarith
  let ?eks = "eks @ [(if eks = [] then ts else max (fst (last eks)) ts, key)]"
  obtain q' where q': "add_key_to_delete_queue q ts key = Inr (enqueue_log ts (t_o_entries q), q')"
    "queue_holds q' ?eks" "key_log_end q' = key_log_end q + 1 + uint (size_key key)"
    using queue_holds_add_key [OF Cons.prems(1) valid fits, of ts] by blast
  from q'(3) Cons.prems(3) split nn have "key_log_end q' + key_log_bytes ops < 2 ^ 63"
    by linarith
  from Cons.IH [OF q'(2) valids this] obtain lg q''
    where "add_keys_to_delete_queue q' ops = Inr (lg, q'')" "queue_holds q'' (extend_clamped ?eks ops)"
    by blast
  with q'(1) show ?case
    by (simp add: op extend_clamped_Cons)
qed

lemma reachable_queue_holds:
  assumes "initialize_empty_delete_queue sz dqb block_size = Inr root"
    and "valid_keys ops" and "key_log_bytes ops < 2 ^ 63"
  shows "\<exists>lg q. add_keys_to_delete_queue (empty_queue root) ops = Inr (lg, q) \<and>
                queue_holds q (clamped ops)"
  using queue_holds_add_keys [OF queue_holds_empty [OF assms(1)] assms(2)]
    key_log_end_empty [OF assms(1)] assms(3)
  by (simp add: extend_clamped_def)

lemma size_lb_entries_of:
  assumes "consistent_lb lb" and "size_lb (fst lb) mod 12 = 0"
  shows "size_lb (fst lb) = 12 * int (length (entries_of lb))"
  using assms by (auto simp add: length_entries_of consistent_lb_def)

lemma scan_t_o_entries:
  assumes "consistent_lb lb" and "size_lb (fst lb) mod 12 = 0" and "j \<le> length (entries_of lb)"
  shows "scan_t_o lb primal b e (size_lb (fst lb)) (12 * int j) begin_found begin_offset =
           scan_entries (drop j (entries_of lb)) primal b e begin_found begin_offset"
  using assms(3)
proof (induction "length (entries_of lb) - j" arbitrary: j begin_found begin_offset)
  case 0
  then have "\<not> 12 * int j < size_lb (fst lb)"
    using size_lb_entries_of [OF assms(1,2)] by simp
  with 0 show ?case
    by (simp add: scan_t_o.simps [of _ _ _ _ _ "12 * int j"])
next
  case (Suc n)
  then have j: "j < length (entries_of lb)"
    by simp
  then have lt: "12 * int j < size_lb (fst lb)"
    using size_lb_entries_of [OF assms(1,2)] by simp
  have rd: "t_and_o_of_bytes (read_at (12 * int j) 12 lb) = entries_of lb ! j"
    using j by (simp add: entries_of_def)
  have dr: "drop j (entries_of lb) = entries_of lb ! j # drop (Suc j) (entries_of lb)"
    using j by (simp add: Cons_nth_drop_Suc)
  have IH: "scan_t_o lb primal b e (size_lb (fst lb)) (12 * int j + 12) bf bo =
              scan_entries (drop (Suc j) (entries_of lb)) primal b e bf bo" for bf bo
    using Suc.hyps(1) [of "Suc j" bf bo] Suc.hyps(2) j by (simp add: algebra_simps)
  show ?case
    unfolding dr using lt
    by (simp add: scan_t_o.simps [of _ _ _ _ _ "12 * int j"] rd IH Let_def)
qed

lemma scan_entries_result:
  assumes "b \<le> e" and "\<forall>tao\<in>set es. in_int64 (offset tao - primal)"
  shows "scan_entries es primal b e begin_found begin_offset =
           Inr (begin_found \<or> (\<exists>tao\<in>set es. b \<le> timestamp tao),
                (if begin_found then begin_offset
                 else first_offset b es (begin_offset + primal) - primal),
                \<exists>tao\<in>set es. e \<le> timestamp tao,
                first_offset e es primal - primal)"
  using assms
proof (induction es arbitrary: begin_found begin_offset)
  case Nil
  then show ?case by simp
next
  case (Cons tao es)
  from Cons.prems(2) have r: "to_int64 (offset tao - primal) = offset tao - primal"
    and rest: "\<forall>tao\<in>set es. in_int64 (offset tao - primal)"
    by (simp_all add: to_int64_id)
  show ?case
  proof (cases "e \<le> timestamp tao")
    case True
    with Cons.prems(1) have "b \<le> timestamp tao"
      by simp
    with True show ?thesis
      by (simp add: Let_def r)
  next
    case False
    then show ?thesis
      by (simp add: Let_def r Cons.IH [OF Cons.prems(1) rest])
  qed
qed

lemma scan_entries_nothing_begins:
  assumes "b \<le> e" and "\<forall>tao\<in>set es. timestamp tao < b"
  shows "scan_entries es primal b e begin_found begin_offset =
           Inr (begin_found, begin_offset, False, 0)"
  using assms(2)
proof (induction es)
  case Nil
  then show ?case by simp
next
  case (Cons tao es)
  then have lt: "timestamp tao < b" and rest: "\<forall>tao\<in>set es. timestamp tao < b"
    by simp_all
  from lt assms(1) have "timestamp tao < e"
    by simp
  with lt have "\<not> b \<le> timestamp tao" "\<not> e \<le> timestamp tao"
    by simp_all
  then show ?case
    by (simp add: Let_def Cons.IH [OF rest])
qed

lemma scan_t_o_begin_found:
  assumes "b \<le> e"
  shows "\<exists>r. scan_t_o lb primal b e ie i begin_found begin_offset = Inr r"
  using assms
proof (induction lb primal b e ie i begin_found begin_offset rule: scan_t_o.induct)
  case (1 t_o primal b e ie i begin_found begin_offset)
  let ?tao = "t_and_o_of_bytes (read_at i 12 t_o)"
  show ?case
  proof (cases "i < ie")
    case False
    then have "scan_t_o t_o primal b e ie i begin_found begin_offset =
                 Inr (begin_found, begin_offset, False, 0)"
      by (simp add: scan_t_o.simps [of _ _ _ _ _ i])
    then show ?thesis
      by blast
  next
    case True
    show ?thesis
    proof (cases "e \<le> timestamp ?tao")
      case e: True
      with "1.prems" have "b \<le> timestamp ?tao"
        by simp
      with True e have "scan_t_o t_o primal b e ie i begin_found begin_offset =
          Inr (True, if begin_found then begin_offset else to_int64 (offset ?tao - primal), True,
               to_int64 (offset ?tao - primal))"
        by (simp add: scan_t_o.simps [of _ _ _ _ _ i] Let_def)
      then show ?thesis
        by blast
    next
      case False
      with True have "scan_t_o t_o primal b e ie i begin_found begin_offset =
          scan_t_o t_o primal b e ie (i + 12)
            (if \<not> begin_found \<and> b \<le> timestamp ?tao then True else begin_found)
            (if \<not> begin_found \<and> b \<le> timestamp ?tao then to_int64 (offset ?tao - primal)
             else begin_offset)"
        by (simp add: scan_t_o.simps [of _ _ _ _ _ i] Let_def)
      with "1.IH" [OF True refl refl refl refl False "1.prems"] show ?thesis
        by simp
    qed
  qed
qed

lemma keys_bytes_Cons: "keys_bytes (k # ks) = size_key k # contents k @ keys_bytes ks"
  by (simp add: keys_bytes_def store_key_bytes_def)

lemma deliver_keys_keys_bytes:
  assumes "list_all valid_key ks"
  shows "deliver_keys (keys_bytes ks) = Inr (map Deletion_key ks)"
  using assms
proof (induction ks)
  case Nil
  then show ?case by (simp add: keys_bytes_def)
next
  case (Cons k ks)
  then have len: "length (contents k) = unat (size_key k)" and IH: "deliver_keys (keys_bytes ks) = Inr (map Deletion_key ks)"
    by (simp_all add: valid_key_def)
  have fits: "uint (size_key k) + 1 \<le> int (length (size_key k # contents k @ keys_bytes ks))"
    using len by simp
  show ?case
    unfolding keys_bytes_Cons deliver_keys.simps using fits
    by (simp add: len [symmetric] IH)
qed

lemma filter_less_sorted:
  fixes e :: repli_timestamp
  assumes "sorted (map fst xs)"
  shows "filter (\<lambda>x. fst x < e) xs = takeWhile (\<lambda>x. fst x < e) xs"
  using assms
proof (induction xs)
  case Nil
  then show ?case by simp
next
  case (Cons x xs)
  show ?case
  proof (cases "fst x < e")
    case True
    with Cons show ?thesis by simp
  next
    case False
    have "\<not> fst y < e" if "y \<in> set xs" for y
    proof -
      from Cons.prems that have "fst x \<le> fst y"
        by auto
      with False show ?thesis
        by simp
    qed
    then have "\<forall>y\<in>set xs. \<not> fst y < e"
      by blast
    with False show ?thesis
      by simp
  qed
qed

lemma in_range_sorted:
  assumes "sorted (map fst xs)"
  shows "in_range b e xs = takeWhile (\<lambda>x. fst x < e) (dropWhile (\<lambda>x. fst x < b) xs)"
  using assms
proof (induction xs)
  case Nil
  then show ?case by (simp add: in_range_def)
next
  case (Cons x xs)
  show ?case
  proof (cases "fst x < b")
    case True
    with Cons show ?thesis
      by (simp add: in_range_def not_le)
  next
    case False
    have "b \<le> fst y" if "y \<in> set (x # xs)" for y
    proof -
      from Cons.prems that have "fst x \<le> fst y"
        by auto
      with False show ?thesis
        by simp
    qed
    then have "\<forall>y\<in>set (x # xs). b \<le> fst y"
      by blast
    then have 1: "in_range b e (x # xs) = filter (\<lambda>y. fst y < e) (x # xs)"
      unfolding in_range_def by (intro filter_cong) auto
    have 2: "filter (\<lambda>y. fst y < e) (x # xs) = takeWhile (\<lambda>y. fst y < e) (x # xs)"
      by (rule filter_less_sorted [OF Cons.prems])
    have 3: "dropWhile (\<lambda>y. fst y < b) (x # xs) = x # xs"
      using False by simp
    show ?thesis
      unfolding 3 1 2 ..
  qed
qed

lemma takeWhile_le_split:
  fixes b e :: repli_timestamp
  assumes "b \<le> e"
  shows "takeWhile (\<lambda>x. fst x < e) xs =
           takeWhile (\<lambda>x. fst x < b) xs @ takeWhile (\<lambda>x. fst x < e) (dropWhile (\<lambda>x. fst x < b) xs)"
proof (induction xs)
  case Nil
  show ?case by simp
next
  case (Cons x xs)
  show ?case
  proof (cases "fst x < b")
    case True
    with assms have "fst x < e"
      by simp
    with True Cons show ?thesis
      by simp
  next
    case False
    then show ?thesis
      by simp
  qed
qed

lemma key_log_bytes_keys: "key_log_bytes xs = int (length (keys_bytes (map snd xs)))"
  by (simp add: key_log_bytes_def)

lemma keys_bytes_append: "keys_bytes (ks @ ks') = keys_bytes ks @ keys_bytes ks'"
  by (simp add: keys_bytes_def)

lemma key_log_slice:
  assumes "sorted (map fst eks)" and "b \<le> e"
  shows "key_log_bytes (takeWhile (\<lambda>x. fst x < e) eks) =
           key_log_bytes (takeWhile (\<lambda>x. fst x < b) eks) + key_log_bytes (in_range b e eks)"
    and "take (nat (key_log_bytes (in_range b e eks)))
           (drop (nat (key_log_bytes (takeWhile (\<lambda>x. fst x < b) eks))) (keys_bytes (map snd eks))) =
         keys_bytes (map snd (in_range b e eks))"
proof -
  let ?P = "takeWhile (\<lambda>x. fst x < b) eks"
  let ?R = "dropWhile (\<lambda>x. fst x < b) eks"
  have F: "in_range b e eks = takeWhile (\<lambda>x. fst x < e) ?R"
    by (rule in_range_sorted [OF assms(1)])
  show "key_log_bytes (takeWhile (\<lambda>x. fst x < e) eks) = key_log_bytes ?P + key_log_bytes (in_range b e eks)"
    by (simp add: takeWhile_le_split [OF assms(2), of eks] F)
  have "keys_bytes (map snd eks) = keys_bytes (map snd (?P @ in_range b e eks @ dropWhile (\<lambda>x. fst x < e) ?R))"
    by (simp add: F)
  also have "\<dots> = keys_bytes (map snd ?P) @ keys_bytes (map snd (in_range b e eks)) @
                    keys_bytes (map snd (dropWhile (\<lambda>x. fst x < e) ?R))"
    by (simp add: keys_bytes_append)
  finally show "take (nat (key_log_bytes (in_range b e eks)))
           (drop (nat (key_log_bytes ?P)) (keys_bytes (map snd eks))) =
         keys_bytes (map snd (in_range b e eks))"
    by (simp add: key_log_bytes_keys)
qed

lemma key_log_bytes_zero: "key_log_bytes xs = 0 \<longleftrightarrow> xs = []"
  using key_log_bytes_Cons_pos by (cases xs) (auto simp add: less_le)

lemma queue_holds_offsets:
  assumes "queue_holds q eks" and "tao \<in> set (t_o_entries q)"
  shows "in_int64 (offset tao - primal_offset (queue_root q))"
proof -
  from assms(1) have st: "sorted_wrt (<) (map timestamp (t_o_entries q))"
    and pos: "0 \<le> primal_offset (queue_root q)"
    and cut: "first_offset (timestamp tao) (t_o_entries q) (key_log_end q) =
                primal_offset (queue_root q) +
                key_log_bytes (takeWhile (\<lambda>x. fst x < timestamp tao) eks)"
    by (simp_all add: queue_holds_def offset_index_inv_def)
  have "first_offset (timestamp tao) (t_o_entries q) (key_log_end q) = offset tao"
    by (rule first_offset_self [OF st assms(2)])
  with cut have "primal_offset (queue_root q) \<le> offset tao"
    using key_log_bytes_nonneg [of "takeWhile (\<lambda>x. fst x < timestamp tao) eks"] by linarith
  moreover have "in_int64 (offset tao)"
    using assms(2) by (auto simp add: t_o_entries_def dest: in_int64_entries_of)
  ultimately show ?thesis
    using pos unfolding in_int64_def by linarith
qed

lemma key_log_bytes_takeWhile_le: "key_log_bytes (takeWhile P xs) \<le> key_log_bytes xs"
proof -
  have "key_log_bytes (takeWhile P xs @ dropWhile P xs) =
      key_log_bytes (takeWhile P xs) + key_log_bytes (dropWhile P xs)"
    by (simp only: key_log_bytes_append)
  then have "key_log_bytes xs = key_log_bytes (takeWhile P xs) + key_log_bytes (dropWhile P xs)"
    by (simp only: takeWhile_dropWhile_id)
  then show ?thesis
    using key_log_bytes_nonneg [of "dropWhile P xs"] by linarith
qed

lemma dump_keys_holds:
  assumes holds: "queue_holds q eks" and le: "b \<le> e"
  shows "dump_keys_from_delete_queue q b e =
           Inr (map Deletion_key (map snd (in_range b e eks)) @ [Done_deletion_keys])"
proof -
  let ?es = "t_o_entries q"
  let ?primal = "primal_offset (queue_root q)"
  let ?t_o_ref = "timestamps_and_offsets_largebuf (queue_root q)"
  let ?keys_ref = "keys_largebuf (queue_root q)"
  let ?B = "key_log_bytes (takeWhile (\<lambda>x. fst x < b) eks)"
  let ?E = "key_log_bytes (takeWhile (\<lambda>x. fst x < e) eks)"
  let ?F = "in_range b e eks"
  from holds have pos: "0 \<le> ?primal" and fits: "key_log_end q < 2 ^ 63"
    by (simp_all add: queue_holds_def)
  from holds have inv: "offset_index_inv q"
    and kc: "keys_contents q = keys_bytes (map snd eks)"
    and vk: "list_all (\<lambda>x. valid_key (snd x)) eks"
    and se: "sorted (map fst eks)"
    and emp: "?es = [] \<longleftrightarrow> eks = []"
    and lst: "eks \<noteq> [] \<Longrightarrow> timestamp (last ?es) = fst (last eks)"
    and cut: "\<And>b. first_offset b ?es (key_log_end q) =
                   ?primal + key_log_bytes (takeWhile (\<lambda>x. fst x < b) eks)"
    by (simp_all add: queue_holds_def)
  from inv have bc: "buffers_consistent q"
    by (simp add: offset_index_inv_def)
  then have c1: "consistent_lb (t_o_largebuf q)" and m: "size_lb (fst (t_o_largebuf q)) mod 12 = 0"
    by (simp_all add: buffers_consistent_def t_o_largebuf_def)
  have kle: "key_log_end q = ?primal + key_log_bytes eks"
    by (rule key_log_end_holds [OF holds])
  then have ksize: "size_lb ?keys_ref = key_log_bytes eks"
    by (simp add: key_log_end_def)
  have tsize: "size_lb ?t_o_ref = 12 * int (length ?es)"
    using size_lb_entries_of [OF c1 m] by (simp add: t_o_entries_def t_o_largebuf_def)
  show ?thesis
  proof (cases "eks = []")
    case True
    with emp tsize show ?thesis
      by (simp add: dump_keys_from_delete_queue_def in_range_def)
  next
    case False
    with emp have es_ne: "?es \<noteq> []"
      by simp
    have guard: "size_lb ?t_o_ref \<noteq> 0 \<and> size_lb ?keys_ref \<noteq> 0"
      "to_size_t (size_lb ?t_o_ref) mod 12 = 0"
      using es_ne False by (simp_all add: tsize ksize key_log_bytes_zero to_size_t_id)
    have range: "\<forall>tao\<in>set ?es. in_int64 (offset tao - ?primal)"
      using queue_holds_offsets [OF holds] by blast
    have scan: "scan_t_o (t_o_largebuf q) ?primal b e (size_lb ?t_o_ref) 0 False 0 =
                  Inr (\<exists>tao\<in>set ?es. b \<le> timestamp tao,
                       first_offset b ?es ?primal - ?primal,
                       \<exists>tao\<in>set ?es. e \<le> timestamp tao,
                       first_offset e ?es ?primal - ?primal)"
      using scan_t_o_entries [OF c1 m, of 0 ?primal b e False 0]
        scan_entries_result [OF le range, of False 0]
      by (simp add: t_o_entries_def t_o_largebuf_def)
    show ?thesis
    proof (cases "\<exists>tao\<in>set ?es. b \<le> timestamp tao")
      case nf: False
      then have "timestamp (last ?es) < b"
        using es_ne by (auto simp add: not_le)
      with lst False have "fst (last eks) < b"
        by simp
      moreover have "fst x \<le> fst (last eks)" if "x \<in> set eks" for x
        using sorted_le_last [OF se, of "fst x"] that False by (simp add: last_map)
      ultimately have "\<forall>x\<in>set eks. fst x < b"
        using le_less_trans by blast
      then have "?F = []"
        by (auto simp add: in_range_def filter_empty_conv not_le)
      with nf guard scan show ?thesis
        by (simp add: dump_keys_from_delete_queue_def lookup_offsets_def)
    next
      case found: True
      have bo: "first_offset b ?es ?primal - ?primal = ?B"
        using first_offset_some [OF found, of ?primal "key_log_end q"] cut [of b] by simp
      have eo: "(if \<not> (\<exists>tao\<in>set ?es. e \<le> timestamp tao) then size_lb ?keys_ref
                 else first_offset e ?es ?primal - ?primal) = ?E"
      proof (cases "\<exists>tao\<in>set ?es. e \<le> timestamp tao")
        case True
        then show ?thesis
          using first_offset_some [OF True, of ?primal "key_log_end q"] cut [of e] by simp
      next
        case False
        then have "first_offset e ?es (key_log_end q) = key_log_end q"
          by (intro first_offset_none) (auto simp add: not_le)
        with False show ?thesis
          using cut [of e] kle ksize by simp
      qed
      have EB: "?E = ?B + key_log_bytes ?F"
        by (rule key_log_slice(1) [OF se le])
      have slice: "read_at ?B (?E - ?B) (keys_largebuf_of q) = keys_bytes (map snd ?F)"
        using key_log_slice(2) [OF se le] by (simp add: read_at_def keys_largebuf_of_def kc EB)
      have "list_all valid_key (map snd ?F)"
        using vk by (auto simp add: list_all_iff in_range_def)
      then have deliver: "deliver_keys (keys_bytes (map snd ?F)) = Inr (map Deletion_key (map snd ?F))"
        by (rule deliver_keys_keys_bytes)
      have nonneg: "0 \<le> key_log_bytes ?F"
        by (rule key_log_bytes_nonneg)
      have "?E \<le> key_log_bytes eks"
        by (rule key_log_bytes_takeWhile_le)
      moreover have "0 \<le> ?B"
        by (rule key_log_bytes_nonneg)
      ultimately have n: "to_int64 (?E - ?B) = ?E - ?B"
        using EB nonneg fits kle pos by (intro to_int64_id) (simp add: in_int64_def)
      show ?thesis
      proof (cases "?F = []")
        case True
        then have "?E = ?B"
          using EB by simp
        with True found guard scan bo eo show ?thesis
          by (simp add: dump_keys_from_delete_queue_def lookup_offsets_def Let_def)
      next
        case False
        then have "?B < ?E"
          using EB nonneg key_log_bytes_zero [of ?F] by linarith
        with found guard scan bo eo slice deliver n show ?thesis
          by (simp add: dump_keys_from_delete_queue_def lookup_offsets_def Let_def)
      qed
    qed
  qed
qed

lemma initialize_empty_delete_queue_Inr:
  assumes "valid_sizes sz" and "0 \<le> block_size" and "block_size < 2 ^ 31"
    and "offsetof_block_ids sz < TIMESTAMPS_AND_OFFSETS_SIZE sz"
    and "offsetof_block_ids sz < keys_largebuf_ref_size sz block_size"
    and "length (block_ids (timestamps_and_offsets_largebuf dqb)) =
           embedded_ids sz (TIMESTAMPS_AND_OFFSETS_SIZE sz)"
    and "length (block_ids (keys_largebuf dqb)) =
           embedded_ids sz (keys_largebuf_ref_size sz block_size)"
  shows "initialize_empty_delete_queue sz dqb block_size =
           Inr \<lparr>magic = expected_magic, primal_offset = 0,
                timestamps_and_offsets_largebuf =
                  \<lparr>size_lb = 0, offset_lb = 0,
                   block_ids = replicate (embedded_ids sz (TIMESTAMPS_AND_OFFSETS_SIZE sz)) NULL_BLOCK_ID\<rparr>,
                keys_largebuf =
                  \<lparr>size_lb = 0, offset_lb = 0,
                   block_ids = replicate (embedded_ids sz (keys_largebuf_ref_size sz block_size)) NULL_BLOCK_ID\<rparr>\<rparr>"
proof -
  from assms(1) have sz: "0 \<le> offsetof_block_ids sz" "0 < sizeof_block_id_t sz"
    and fits: "TIMESTAMPS_AND_OFFSETS_SIZE sz < 2 ^ 31"
    unfolding layout_constants(3) [OF assms(1)] valid_sizes_def by linarith+
  note init = initialize_large_buf_ref_unallocated [OF sz]
  show ?thesis
    unfolding initialize_empty_delete_queue_def Let_def
    by (simp add: init [OF assms(4) fits assms(6)]
        init [OF assms(5) keys_largebuf_ref_size_exact(2) [OF assms(1,2,3)] assms(7)])
qed

lemma valid_sizes_64: "valid_sizes sizes_64"
  by (simp add: valid_sizes_def sizes_64_def)

lemma sizes_64_constants:
  "TIMESTAMPS_AND_OFFSETS_SIZE sizes_64 = 28" "keys_largebuf_ref_size sizes_64 4096 = 4056"
  "embedded_ids sizes_64 28 = 3" "embedded_ids sizes_64 4056 = 1010"
  "offsetof_block_ids sizes_64 = 16"
proof -
  show 1: "TIMESTAMPS_AND_OFFSETS_SIZE sizes_64 = 28"
    unfolding layout_constants [OF valid_sizes_64] by (simp add: sizes_64_def)
  have "keys_largebuf_ref_size sizes_64 4096 =
      4096 - (TIMESTAMPS_AND_OFFSETS_OFFSET sizes_64 + TIMESTAMPS_AND_OFFSETS_SIZE sizes_64)"
    by (rule keys_largebuf_ref_size_exact(1) [OF valid_sizes_64]) simp_all
  then show "keys_largebuf_ref_size sizes_64 4096 = 4056"
    unfolding layout_constants [OF valid_sizes_64] by (simp add: sizes_64_def)
  show "embedded_ids sizes_64 28 = 3" "embedded_ids sizes_64 4056 = 1010"
    by (simp_all add: embedded_ids_def sizes_64_def)
  show "offsetof_block_ids sizes_64 = 16"
    by (simp add: sizes_64_def)
qed

lemma example_root_initialized:
  "initialize_empty_delete_queue sizes_64 example_block 4096 = Inr example_root"
  using initialize_empty_delete_queue_Inr [OF valid_sizes_64, of 4096 example_block]
  unfolding sizes_64_constants
  by (simp add: example_block_def example_root_def expected_magic_def)

lemma scenario_valid:
  "valid_keys scenario" "key_log_bytes scenario < 2 ^ 63"
  "valid_keys out_of_order_scenario" "key_log_bytes out_of_order_scenario < 2 ^ 63"
  by (simp_all add: scenario_def out_of_order_scenario_def valid_keys_def valid_key_def key_a_def
      key_b_def key_c_def key_log_bytes_def keys_bytes_def store_key_bytes_def)

lemma clamped_scenario:
  "clamped scenario = scenario"
  "clamped out_of_order_scenario = [(100, key_a), (100, key_b)]"
  by (simp_all add: scenario_def out_of_order_scenario_def clamped_def)

lemma in_range_scenario:
  "in_range 100 105 scenario = [(100, key_a), (100, key_b)]"
  "in_range 105 9999 scenario = [(105, key_c)]"
  "in_range 0 100 scenario = []"
  by (simp_all add: scenario_def in_range_def)

lemma clamped_Nil_iff: "clamped ops = [] \<longleftrightarrow> ops = []"
  by (cases ops) (auto simp add: clamped_def)

lemma queue_holds_sizes:
  assumes "queue_holds q eks"
  shows "size_lb (timestamps_and_offsets_largebuf (queue_root q)) = 12 * int (length (t_o_entries q))"
    and "size_lb (keys_largebuf (queue_root q)) = key_log_bytes eks"
    and "int (length (t_o_contents q)) = size_lb (timestamps_and_offsets_largebuf (queue_root q))"
proof -
  from assms have bc: "buffers_consistent q"
    by (simp add: queue_holds_def offset_index_inv_def)
  then have c1: "consistent_lb (t_o_largebuf q)" and m: "size_lb (fst (t_o_largebuf q)) mod 12 = 0"
    by (simp_all add: buffers_consistent_def t_o_largebuf_def)
  show "size_lb (timestamps_and_offsets_largebuf (queue_root q)) = 12 * int (length (t_o_entries q))"
    using size_lb_entries_of [OF c1 m] by (simp add: t_o_entries_def t_o_largebuf_def)
  show "size_lb (keys_largebuf (queue_root q)) = key_log_bytes eks"
    using key_log_end_holds [OF assms] by (simp add: key_log_end_def)
  show "int (length (t_o_contents q)) = size_lb (timestamps_and_offsets_largebuf (queue_root q))"
    using c1 by (simp add: consistent_lb_def t_o_largebuf_def)
qed

lemma offset_index_inv_empty:
  assumes "initialize_empty_delete_queue sz dqb block_size = Inr root"
  shows "offset_index_inv (empty_queue root)"
  using queue_holds_empty [OF assms] by (simp add: queue_holds_def)

lemma offset_index_inv_properties:
  assumes "offset_index_inv q"
  shows "size_lb (timestamps_and_offsets_largebuf (queue_root q)) mod 12 = 0"
    and "size_lb (timestamps_and_offsets_largebuf (queue_root q)) = 12 * int (length (t_o_entries q))"
    and "int (length (t_o_contents q)) = size_lb (timestamps_and_offsets_largebuf (queue_root q))"
    and "sorted_wrt (<) (map timestamp (t_o_entries q))"
    and "sorted_wrt (<) (map offset (t_o_entries q))"
proof -
  from assms have bc: "buffers_consistent q"
    by (simp add: offset_index_inv_def)
  then have c1: "consistent_lb (t_o_largebuf q)" and m: "size_lb (fst (t_o_largebuf q)) mod 12 = 0"
    by (simp_all add: buffers_consistent_def t_o_largebuf_def)
  show "size_lb (timestamps_and_offsets_largebuf (queue_root q)) mod 12 = 0"
    using m by (simp add: t_o_largebuf_def)
  show "size_lb (timestamps_and_offsets_largebuf (queue_root q)) = 12 * int (length (t_o_entries q))"
    using size_lb_entries_of [OF c1 m] by (simp add: t_o_entries_def t_o_largebuf_def)
  show "int (length (t_o_contents q)) = size_lb (timestamps_and_offsets_largebuf (queue_root q))"
    using c1 by (simp add: consistent_lb_def t_o_largebuf_def)
  show "sorted_wrt (<) (map timestamp (t_o_entries q))" "sorted_wrt (<) (map offset (t_o_entries q))"
    using assms by (simp_all add: offset_index_inv_def)
qed

lemma add_key_t_o_unchanged:
  assumes "buffers_consistent q" and "t_o_entries q \<noteq> []"
    and "\<not> timestamp (last (t_o_entries q)) < ts"
    and "add_key_to_delete_queue q ts key = Inr (lg, q')"
  shows "t_o_largebuf q' = t_o_largebuf q"
proof -
  from assms(1) have c1: "consistent_lb (t_o_largebuf q)"
    and m: "size_lb (fst (t_o_largebuf q)) mod 12 = 0"
    by (simp_all add: buffers_consistent_def t_o_largebuf_def)
  from assms(2) have nz: "size_lb (fst (t_o_largebuf q)) \<noteq> 0"
    by (auto simp add: t_o_entries_def entries_of_def)
  have "snd (update_t_o (primal_offset (queue_root q)) (size_lb (keys_largebuf (queue_root q))) ts
          (t_o_largebuf q)) = t_o_largebuf q"
    using assms(3) by (simp add: update_t_o_allocated [OF c1 m nz] t_o_entries_def)
  moreover from c1 have "to_size_t (size_lb (timestamps_and_offsets_largebuf (queue_root q))) =
      size_lb (timestamps_and_offsets_largebuf (queue_root q))"
    by (simp add: consistent_lb_def t_o_largebuf_def to_size_t_id)
  ultimately show ?thesis
    using assms(4) m
    by (auto simp add: add_key_to_delete_queue_def Let_def split_beta t_o_largebuf_def
        store_largebufs_def)
qed

lemma enqueue_entries_last:
  "enqueue_entries off ts es \<noteq> [] \<and> \<not> timestamp (last (enqueue_entries off ts es)) < ts"
  by (simp add: enqueue_entries_def)

lemma enqueue_entries_idem:
  "es \<noteq> [] \<Longrightarrow> \<not> timestamp (last es) < ts \<Longrightarrow> enqueue_entries off ts es = es"
  by (simp add: enqueue_entries_def)

lemma enqueue_log_in_order:
  "es = [] \<or> \<not> ts < timestamp (last es) \<Longrightarrow> enqueue_log ts es = []"
  by (auto simp add: enqueue_log_def)

lemma add_keys_same_timestamp:
  assumes "buffers_consistent q" and "list_all valid_key ks"
    and "- (2 ^ 63) \<le> key_log_end q" and "key_log_end q + int (length (keys_bytes ks)) \<le> 2 ^ 63"
  shows "\<exists>lg q'. add_keys_to_delete_queue q (map (Pair ts) ks) = Inr (lg, q') \<and>
           buffers_consistent q' \<and>
           t_o_entries q' =
             (if ks = [] then t_o_entries q else enqueue_entries (key_log_end q) ts (t_o_entries q)) \<and>
           keys_contents q' = keys_contents q @ keys_bytes ks \<and>
           (t_o_entries q \<noteq> [] \<and> \<not> timestamp (last (t_o_entries q)) < ts \<longrightarrow>
              t_o_largebuf q' = t_o_largebuf q)"
  using assms
proof (induction ks arbitrary: q)
  case Nil
  then show ?case by (simp add: keys_bytes_def)
next
  case (Cons k ks)
  from Cons.prems(2) have valid: "valid_key k" and valids: "list_all valid_key ks"
    by simp_all
  have len: "int (length (keys_bytes (k # ks))) = 1 + uint (size_key k) + int (length (keys_bytes ks))"
    using length_store_key_bytes [OF valid] by (simp add: keys_bytes_def)
  have nn: "0 \<le> uint (size_key k)"
    by simp
  have range: "in_int64 (key_log_end q)"
    unfolding in_int64_def using Cons.prems(3,4) len nn by linarith
  obtain q1 where q1:
    "add_key_to_delete_queue q ts k = Inr (enqueue_log ts (t_o_entries q), q1)"
    "t_o_entries q1 = enqueue_entries (key_log_end q) ts (t_o_entries q)"
    "keys_contents q1 = keys_contents q @ store_key_bytes k"
    "key_log_end q1 = key_log_end q + 1 + uint (size_key k)"
    "buffers_consistent q1"
    using add_key_result [OF Cons.prems(1) valid range] by blast
  from q1(4) Cons.prems(3,4) len nn have "- (2 ^ 63) \<le> key_log_end q1"
    and "key_log_end q1 + int (length (keys_bytes ks)) \<le> 2 ^ 63"
    by linarith+
  from Cons.IH [OF q1(5) valids this] obtain lg q' where q':
    "add_keys_to_delete_queue q1 (map (Pair ts) ks) = Inr (lg, q')"
    "buffers_consistent q'"
    "t_o_entries q' = (if ks = [] then t_o_entries q1 else enqueue_entries (key_log_end q1) ts (t_o_entries q1))"
    "keys_contents q' = keys_contents q1 @ keys_bytes ks"
    "t_o_entries q1 \<noteq> [] \<and> \<not> timestamp (last (t_o_entries q1)) < ts \<longrightarrow> t_o_largebuf q' = t_o_largebuf q1"
    by blast
  have stable: "t_o_entries q1 \<noteq> [] \<and> \<not> timestamp (last (t_o_entries q1)) < ts"
    unfolding q1(2) by (rule enqueue_entries_last)
  have 1: "add_keys_to_delete_queue q (map (Pair ts) (k # ks)) =
             Inr (enqueue_log ts (t_o_entries q) @ lg, q')"
    using q1(1) q'(1) by simp
  have 2: "t_o_entries q' = enqueue_entries (key_log_end q) ts (t_o_entries q)"
    using q'(3) stable enqueue_entries_idem [of "t_o_entries q1" ts "key_log_end q1"]
    by (simp add: q1(2) split: if_splits)
  have 3: "keys_contents q' = keys_contents q @ keys_bytes (k # ks)"
    by (simp add: q'(4) q1(3) keys_bytes_def)
  have 4: "t_o_largebuf q' = t_o_largebuf q"
    if "t_o_entries q \<noteq> [] \<and> \<not> timestamp (last (t_o_entries q)) < ts"
    using add_key_t_o_unchanged [OF Cons.prems(1) _ _ q1(1)] that q'(5) stable by simp
  from 1 q'(2) 2 3 4 show ?case
    by auto
qed

lemma queue_a_entries: "t_o_entries queue_a = [\<lparr>timestamp = 100, offset = 0\<rparr>]"
  by (simp add: t_o_entries_def entries_of_def t_o_largebuf_def queue_a_def example_root_def
      read_at_def t_and_o_of_bytes_def)

lemma queue_a_consistent: "buffers_consistent queue_a" "key_log_end queue_a = 2"
  by (simp_all add: buffers_consistent_def consistent_lb_def t_o_largebuf_def keys_largebuf_of_def
      queue_a_def example_root_def key_log_end_def)

lemma buffers_consistent_example: "buffers_consistent (empty_queue example_root)"
  by (simp add: buffers_consistent_def consistent_lb_def t_o_largebuf_def keys_largebuf_of_def
      empty_queue_def example_root_def)

lemma add_key_primal_offset:
  assumes "add_key_to_delete_queue q ts key = Inr (lg, q')"
  shows "primal_offset (queue_root q') = primal_offset (queue_root q)"
  using assms
  by (auto simp add: add_key_to_delete_queue_def Let_def split_beta store_largebufs_def
      split: if_splits)

lemma add_keys_primal_offset:
  assumes "add_keys_to_delete_queue q ops = Inr (lg, q')"
  shows "primal_offset (queue_root q') = primal_offset (queue_root q)"
  using assms
proof (induction ops arbitrary: q lg)
  case Nil
  then show ?case by simp
next
  case (Cons op ops)
  obtain ts key where op: "op = (ts, key)"
    by (cases op)
  from Cons.prems obtain lg1 q1 lg2 where
    "add_key_to_delete_queue q ts key = Inr (lg1, q1)" "add_keys_to_delete_queue q1 ops = Inr (lg2, q')"
    by (auto simp add: op split: sum.splits)
  with Cons.IH [of q1 lg2] add_key_primal_offset [of q ts key lg1 q1] show ?case
    by simp
qed

lemma map_snd_clamp_from: "map snd (clamp_from t ops) = map snd ops"
  by (induction t ops rule: clamp_from.induct) simp_all

lemma key_log_bytes_clamped: "key_log_bytes (clamped ops) = key_log_bytes ops"
  by (cases ops) (auto simp add: clamped_def key_log_bytes_def map_snd_clamp_from)

lemma reachable_key_log_end:
  assumes "initialize_empty_delete_queue sz dqb block_size = Inr root"
    and "add_keys_to_delete_queue (empty_queue root) ops = Inr (lg, q)"
    and "queue_holds q (clamped ops)"
  shows "key_log_end q = key_log_bytes ops"
  using key_log_end_holds [OF assms(3)] add_keys_primal_offset [OF assms(2)]
    initialize_empty_delete_queue_sizes [OF assms(1)]
  by (simp add: key_log_bytes_clamped empty_queue_def)

lemma add_key_out_of_order:
  assumes "queue_holds q eks" and "eks \<noteq> []" and "valid_key key"
    and "key_log_end q + 1 + uint (size_key key) < 2 ^ 63"
    and "ts < fst (last eks)"
  shows "\<exists>q'. add_key_to_delete_queue q ts key = Inr ([LogWRN_out_of_order (fst (last eks)) ts], q') \<and>
           queue_holds q' (eks @ [(fst (last eks), key)]) \<and>
           t_o_largebuf q' = t_o_largebuf q \<and>
           keys_contents q' = keys_contents q @ store_key_bytes key"
proof -
  from assms(1,2) have ne: "t_o_entries q \<noteq> []" and lst: "timestamp (last (t_o_entries q)) = fst (last eks)"
    and bc: "buffers_consistent q"
    by (simp_all add: queue_holds_def offset_index_inv_def)
  from assms(5) have mx: "max (fst (last eks)) ts = fst (last eks)"
    by (auto simp add: max_def)
  obtain q' where q': "add_key_to_delete_queue q ts key = Inr (enqueue_log ts (t_o_entries q), q')"
    "queue_holds q' (eks @ [(fst (last eks), key)])"
    using queue_holds_add_key [OF assms(1,3,4), of ts] assms(2) mx by auto
  have lg: "enqueue_log ts (t_o_entries q) = [LogWRN_out_of_order (fst (last eks)) ts]"
    using ne lst assms(5) by (simp add: enqueue_log_def)
  have nl: "\<not> timestamp (last (t_o_entries q)) < ts"
    using lst assms(5) by simp
  have 1: "t_o_largebuf q' = t_o_largebuf q"
    by (rule add_key_t_o_unchanged [OF bc ne nl q'(1)])
  have "in_int64 (key_log_end q)"
    unfolding in_int64_def key_log_end_holds [OF assms(1)]
    using assms(1,4) key_log_bytes_nonneg [of eks] uint_nonnegative [of "size_key key"]
      key_log_end_holds [OF assms(1)]
    by (simp add: queue_holds_def)
  then obtain q'' where "add_key_to_delete_queue q ts key = Inr (enqueue_log ts (t_o_entries q), q'')"
    "keys_contents q'' = keys_contents q @ store_key_bytes key"
    using add_key_result [OF bc assms(3)] by blast
  with q'(1) have 2: "keys_contents q' = keys_contents q @ store_key_bytes key"
    by simp
  from q' lg 1 2 show ?thesis
    by auto
qed

lemma add_key_first:
  assumes "initialize_empty_delete_queue sz dqb block_size = Inr root" and "valid_key key"
  shows "\<exists>q. add_key_to_delete_queue (empty_queue root) ts key = Inr ([], q) \<and>
           queue_holds q [(ts, key)] \<and>
           t_o_entries q = [\<lparr>timestamp = ts, offset = 0\<rparr>] \<and>
           key_log_end q = 1 + uint (size_key key)"
proof -
  let ?q = "empty_queue root"
  have h: "queue_holds ?q []"
    by (rule queue_holds_empty [OF assms(1)])
  have k: "key_log_end ?q = 0"
    by (rule key_log_end_empty [OF assms(1)])
  then have r: "in_int64 (key_log_end ?q)"
    by (simp add: in_int64_def)
  have "uint (size_key key) < 2 ^ 8"
    using uint_bounded [of "size_key key"] by simp
  with k have f: "key_log_end ?q + 1 + uint (size_key key) < 2 ^ 63"
    by simp
  from h have e: "t_o_entries ?q = []" and bc: "buffers_consistent ?q"
    by (simp_all add: queue_holds_def offset_index_inv_def)
  obtain q where q: "add_key_to_delete_queue ?q ts key = Inr (enqueue_log ts (t_o_entries ?q), q)"
    "queue_holds q ([] @ [(ts, key)])" "key_log_end q = key_log_end ?q + 1 + uint (size_key key)"
    using queue_holds_add_key [OF h assms(2) f, of ts] by auto
  obtain q' where "add_key_to_delete_queue ?q ts key = Inr (enqueue_log ts (t_o_entries ?q), q')"
    "t_o_entries q' = enqueue_entries (key_log_end ?q) ts (t_o_entries ?q)"
    using add_key_result [OF bc assms(2) r] by blast
  with q(1) have "t_o_entries q = enqueue_entries (key_log_end ?q) ts (t_o_entries ?q)"
    by simp
  with q e k show ?thesis
    by (simp add: enqueue_log_def enqueue_entries_def)
qed

lemma in_range_snoc_last:
  fixes T :: repli_timestamp
  assumes "T < e"
  shows "in_range T e (eks @ [(T, key)]) = in_range T e eks @ [(T, key)]"
  using assms by (simp add: in_range_def)

lemma t_and_o_bytes_100: "t_and_o_bytes \<lparr>timestamp = 100, offset = 0\<rparr> = [100, 0, 0, 0, 0, 0, 0, 0, 0, 0, 0, 0]"
  by (simp add: t_and_o_bytes_def le_bytes_def upt_rec)

lemma t_and_o_bytes_105: "t_and_o_bytes \<lparr>timestamp = 105, offset = 4\<rparr> = [105, 0, 0, 0, 4, 0, 0, 0, 0, 0, 0, 0]"
  by (simp add: t_and_o_bytes_def le_bytes_def upt_rec)

lemma t_and_o_of_bytes_100: "t_and_o_of_bytes [100, 0, 0, 0, 0, 0, 0, 0, 0, 0, 0, 0] = \<lparr>timestamp = 100, offset = 0\<rparr>"
  by (simp add: t_and_o_of_bytes_def)

lemma t_and_o_of_bytes_105: "t_and_o_of_bytes [105, 0, 0, 0, 4, 0, 0, 0, 0, 0, 0, 0] = \<lparr>timestamp = 105, offset = 4\<rparr>"
  by (simp add: t_and_o_of_bytes_def)

lemma scenario_reaches_queue_abc:
  "add_keys_to_delete_queue (empty_queue example_root) scenario = Inr ([], queue_abc)"
  by (simp add: scenario_def queue_abc_def empty_queue_def example_root_def key_a_def key_b_def key_c_def
      add_key_to_delete_queue_def update_t_o_def update_keys_def allocate_def append_lb_def
      fill_at_def read_at_def t_o_largebuf_def keys_largebuf_of_def store_largebufs_def
      store_key_bytes_def t_and_o_bytes_100 t_and_o_bytes_105 t_and_o_of_bytes_100 Let_def
      to_size_t_def)

lemma queue_abc_entries:
  "t_o_entries queue_abc = [\<lparr>timestamp = 100, offset = 0\<rparr>, \<lparr>timestamp = 105, offset = 4\<rparr>]"
  by (simp add: t_o_entries_def entries_of_def t_o_largebuf_def queue_abc_def example_root_def
      read_at_def t_and_o_of_bytes_100 t_and_o_of_bytes_105 upt_rec)

lemma dump_queue_abc_reversed:
  "dump_keys_from_delete_queue queue_abc 105 100 = Inl Rassert_begin_found"
  by (simp add: dump_keys_from_delete_queue_def lookup_offsets_def t_o_largebuf_def queue_abc_def
      example_root_def scan_t_o.simps [of _ _ _ _ _ 0] read_at_def t_and_o_of_bytes_100 Let_def
      to_size_t_def)

lemma deliver_keys_calls:
  assumes "deliver_keys buf = Inr calls"
  shows "\<exists>ks. calls = map Deletion_key ks"
  using assms
proof (induction buf arbitrary: calls rule: deliver_keys.induct)
  case 1
  then have "calls = map Deletion_key []"
    by simp
  then show ?case
    by blast
next
  case (2 b rest)
  from "2.prems" have fits: "uint b + 1 \<le> int (length (b # rest))"
    by (simp split: if_splits)
  with "2.prems" obtain calls' where c: "deliver_keys (drop (unat b) rest) = Inr calls'"
    "calls = Deletion_key \<lparr>size_key = b, contents = take (unat b) rest\<rparr> # calls'"
    by (auto split: sum.splits)
  from "2.IH" [OF _ c(1)] fits obtain ks where "calls' = map Deletion_key ks"
    by auto
  with c(2) have "calls = map Deletion_key (\<lparr>size_key = b, contents = take (unat b) rest\<rparr> # ks)"
    by simp
  then show ?case
    by blast
qed

lemma dump_keys_calls:
  assumes "dump_keys_from_delete_queue q b e = Inr calls"
  shows "\<exists>ks. calls = map Deletion_key ks @ [Done_deletion_keys]"
proof -
  have only_done: "\<exists>ks. [Done_deletion_keys] = map Deletion_key ks @ [Done_deletion_keys]"
    by (rule exI [of _ "[]"]) simp
  show ?thesis
  proof (cases "\<exists>buf calls'. deliver_keys buf = Inr calls' \<and> calls = calls' @ [Done_deletion_keys]")
    case True
    then obtain buf calls' where "deliver_keys buf = Inr calls'" "calls = calls' @ [Done_deletion_keys]"
      by blast
    with deliver_keys_calls [of buf calls'] show ?thesis
      by auto
  next
    case False
    with assms have "calls = [Done_deletion_keys]"
      by (auto simp add: dump_keys_from_delete_queue_def Let_def
          split: if_splits sum.splits option.splits prod.splits)
    with only_done show ?thesis
      by simp
  qed
qed

lemma dump_keys_unallocated:
  assumes "size_lb (timestamps_and_offsets_largebuf (queue_root q)) = 0 \<or>
           size_lb (keys_largebuf (queue_root q)) = 0"
  shows "dump_keys_from_delete_queue q b e = Inr [Done_deletion_keys]"
  using assms by (auto simp add: dump_keys_from_delete_queue_def)

lemma lookup_offsets_entries:
  assumes "buffers_consistent q" and "b \<le> e"
    and "\<forall>tao\<in>set (t_o_entries q). in_int64 (offset tao - primal_offset (queue_root q))"
  shows "lookup_offsets q b e =
           (if \<exists>tao\<in>set (t_o_entries q). b \<le> timestamp tao
            then Inr (Some (first_offset b (t_o_entries q) (primal_offset (queue_root q)) -
                              primal_offset (queue_root q),
                            if \<exists>tao\<in>set (t_o_entries q). e \<le> timestamp tao
                            then first_offset e (t_o_entries q) (primal_offset (queue_root q)) -
                                   primal_offset (queue_root q)
                            else size_lb (keys_largebuf (queue_root q))))
            else Inr None)"
proof -
  from assms(1) have c1: "consistent_lb (t_o_largebuf q)" and m: "size_lb (fst (t_o_largebuf q)) mod 12 = 0"
    by (simp_all add: buffers_consistent_def t_o_largebuf_def)
  have "scan_t_o (t_o_largebuf q) (primal_offset (queue_root q)) b e
          (size_lb (timestamps_and_offsets_largebuf (queue_root q))) 0 False 0 =
        scan_entries (t_o_entries q) (primal_offset (queue_root q)) b e False 0"
    using scan_t_o_entries [OF c1 m, of 0 "primal_offset (queue_root q)" b e False 0]
    by (simp add: t_o_entries_def t_o_largebuf_def)
  then show ?thesis
    by (simp add: lookup_offsets_def scan_entries_result [OF assms(2,3)])
qed

lemma dump_keys_nothing_begins:
  assumes "buffers_consistent q" and "b \<le> e" and "\<forall>tao\<in>set (t_o_entries q). timestamp tao < b"
  shows "dump_keys_from_delete_queue q b e = Inr [Done_deletion_keys]"
proof -
  from assms(1) have c1: "consistent_lb (t_o_largebuf q)" and m: "size_lb (fst (t_o_largebuf q)) mod 12 = 0"
    by (simp_all add: buffers_consistent_def t_o_largebuf_def)
  have "scan_t_o (t_o_largebuf q) (primal_offset (queue_root q)) b e
          (size_lb (timestamps_and_offsets_largebuf (queue_root q))) 0 False 0 =
        Inr (False, 0, False, 0)"
    using scan_t_o_entries [OF c1 m, of 0 "primal_offset (queue_root q)" b e False 0]
      scan_entries_nothing_begins [OF assms(2), of "t_o_entries q"] assms(3)
    by (simp add: t_o_entries_def t_o_largebuf_def)
  then have "lookup_offsets q b e = Inr None"
    by (simp add: lookup_offsets_def)
  moreover from c1 m have "to_size_t (size_lb (timestamps_and_offsets_largebuf (queue_root q))) mod 12 = 0"
    by (simp add: consistent_lb_def t_o_largebuf_def to_size_t_id)
  ultimately show ?thesis
    by (simp add: dump_keys_from_delete_queue_def Let_def)
qed

lemma queue_abc_consistent: "buffers_consistent queue_abc"
  by (simp add: buffers_consistent_def consistent_lb_def t_o_largebuf_def keys_largebuf_of_def
      queue_abc_def example_root_def)

lemma queue_abc_range:
  "\<forall>tao\<in>set (t_o_entries queue_abc). in_int64 (offset tao - primal_offset (queue_root queue_abc))"
proof -
  have "primal_offset (queue_root queue_abc) = 0"
    by (simp add: queue_abc_def example_root_def)
  then show ?thesis
    by (simp add: queue_abc_entries in_int64_def)
qed

lemma deliver_keys_Inl:
  assumes "deliver_keys buf = Inl a"
  shows "a = Rassert_key_fits"
  using assms
  by (induction buf rule: deliver_keys.induct) (auto split: if_splits sum.splits)

lemma dump_keys_begin_found:
  assumes "b \<le> e"
  shows "dump_keys_from_delete_queue q b e \<noteq> Inl Rassert_begin_found"
proof -
  obtain r where "scan_t_o (t_o_largebuf q) (primal_offset (queue_root q)) b e
      (size_lb (timestamps_and_offsets_largebuf (queue_root q))) 0 False 0 = Inr r"
    using scan_t_o_begin_found [OF assms] by blast
  then show ?thesis
    by (auto simp add: dump_keys_from_delete_queue_def lookup_offsets_def Let_def
        split: if_splits sum.splits option.splits prod.splits dest: deliver_keys_Inl)
qed

lemma map_snd_clamped: "map snd (clamped ops) = map snd ops"
  by (cases ops) (auto simp add: clamped_def map_snd_clamp_from)

lemma length_clamped: "length (clamped ops) = length ops"
  using arg_cong [OF map_snd_clamped, of length ops] by simp

lemma key_log_bytes_takeWhile:
  "key_log_bytes (takeWhile P eks) = entry_boundary (map snd eks) (length (takeWhile P eks))"
proof -
  have "takeWhile P eks = take (length (takeWhile P eks)) eks"
    by (rule takeWhile_eq_take)
  then have "map snd (takeWhile P eks) = take (length (takeWhile P eks)) (map snd eks)"
    by (metis take_map)
  then show ?thesis
    by (simp add: key_log_bytes_def entry_boundary_def)
qed

lemma first_offset_boundary:
  assumes "queue_holds q eks" and "\<exists>tao\<in>set (t_o_entries q). b \<le> timestamp tao"
  shows "\<exists>n\<le>length eks. first_offset b (t_o_entries q) d - primal_offset (queue_root q) =
           entry_boundary (map snd eks) n"
proof -
  from assms(1) have "first_offset b (t_o_entries q) (key_log_end q) =
      primal_offset (queue_root q) + key_log_bytes (takeWhile (\<lambda>x. fst x < b) eks)"
    by (simp add: queue_holds_def)
  then have "first_offset b (t_o_entries q) d - primal_offset (queue_root q) =
      entry_boundary (map snd eks) (length (takeWhile (\<lambda>x. fst x < b) eks))"
    using first_offset_some [OF assms(2), of d "key_log_end q"]
    by (simp add: key_log_bytes_takeWhile)
  moreover have "length (takeWhile (\<lambda>x. fst x < b) eks) \<le> length eks"
    by (rule length_takeWhile_le)
  ultimately show ?thesis
    by blast
qed

lemma entry_offset_boundary:
  assumes "queue_holds q eks" and "tao \<in> set (t_o_entries q)"
  shows "\<exists>n\<le>length eks. offset tao - primal_offset (queue_root q) = entry_boundary (map snd eks) n"
proof -
  from assms(1) have "sorted_wrt (<) (map timestamp (t_o_entries q))"
    by (simp add: queue_holds_def offset_index_inv_def)
  then have "first_offset (timestamp tao) (t_o_entries q) 0 = offset tao"
    using assms(2) by (rule first_offset_self)
  moreover have "\<exists>x\<in>set (t_o_entries q). timestamp tao \<le> timestamp x"
    using assms(2) by auto
  ultimately show ?thesis
    using first_offset_boundary [OF assms(1), of "timestamp tao" 0] by simp
qed

lemma key_log_size_boundary:
  assumes "queue_holds q eks"
  shows "size_lb (keys_largebuf (queue_root q)) = entry_boundary (map snd eks) (length eks)"
  using queue_holds_sizes(2) [OF assms] by (simp add: entry_boundary_def key_log_bytes_def)

lemma deliver_keys_between_boundaries:
  assumes "list_all valid_key ks" and "m \<le> n" and "n \<le> length ks"
  shows "deliver_keys (take (nat (entry_boundary ks n - entry_boundary ks m))
            (drop (nat (entry_boundary ks m)) (keys_bytes ks))) =
           Inr (map Deletion_key (drop m (take n ks)))"
proof -
  have "take m (take n ks) = take m ks"
    using assms(2) by (simp add: min_def)
  then have tn: "take n ks = take m ks @ drop m (take n ks)"
    using append_take_drop_id [of m "take n ks"] by simp
  have ks: "ks = take m ks @ drop m (take n ks) @ drop n ks"
    using append_take_drop_id [of n ks] tn by (metis append.assoc)
  have bn: "entry_boundary ks n =
              entry_boundary ks m + int (length (keys_bytes (drop m (take n ks))))"
    unfolding entry_boundary_def
    using arg_cong [OF tn, of "\<lambda>xs. int (length (keys_bytes xs))"] by (simp add: keys_bytes_append)
  have "keys_bytes ks = keys_bytes (take m ks) @ keys_bytes (drop m (take n ks)) @ keys_bytes (drop n ks)"
    using arg_cong [OF ks, of keys_bytes] by (simp add: keys_bytes_append)
  then have "take (nat (entry_boundary ks n - entry_boundary ks m))
            (drop (nat (entry_boundary ks m)) (keys_bytes ks)) = keys_bytes (drop m (take n ks))"
    by (simp only: bn) (simp add: entry_boundary_def)
  moreover have "list_all valid_key (drop m (take n ks))"
    using assms(1) by (auto simp add: list_all_iff dest!: in_set_dropD in_set_takeD)
  ultimately show ?thesis
    by (simp add: deliver_keys_keys_bytes)
qed

lemma scan_entries_reversed:
  assumes "e < b"
  shows "scan_entries es primal b e False begin_offset = Inl Rassert_begin_found \<or>
         scan_entries es primal b e False begin_offset = Inr (False, begin_offset, False, 0) \<or>
         (\<exists>tao\<in>set es. scan_entries es primal b e False begin_offset =
            Inr (True, to_int64 (offset tao - primal), True, to_int64 (offset tao - primal)))"
  using assms
proof (induction es)
  case Nil
  then show ?case by simp
next
  case (Cons tao es)
  show ?case
  proof (cases "e \<le> timestamp tao")
    case True
    then show ?thesis
      by (simp add: Let_def)
  next
    case False
    with Cons.prems have "\<not> b \<le> timestamp tao"
      by simp
    with False Cons.IH [OF Cons.prems] show ?thesis
      by (auto simp add: Let_def)
  qed
qed

lemma lookup_offsets_reversed:
  assumes "buffers_consistent q" and "e < b"
  shows "lookup_offsets q b e = Inl Rassert_begin_found \<or> lookup_offsets q b e = Inr None \<or>
         (\<exists>tao\<in>set (t_o_entries q).
            lookup_offsets q b e =
              Inr (Some (to_int64 (offset tao - primal_offset (queue_root q)),
                         to_int64 (offset tao - primal_offset (queue_root q)))))"
proof -
  from assms(1) have c1: "consistent_lb (t_o_largebuf q)" and m: "size_lb (fst (t_o_largebuf q)) mod 12 = 0"
    by (simp_all add: buffers_consistent_def t_o_largebuf_def)
  have scan: "scan_t_o (t_o_largebuf q) (primal_offset (queue_root q)) b e
          (size_lb (timestamps_and_offsets_largebuf (queue_root q))) 0 False 0 =
        scan_entries (t_o_entries q) (primal_offset (queue_root q)) b e False 0"
    using scan_t_o_entries [OF c1 m, of 0 "primal_offset (queue_root q)" b e False 0]
    by (simp add: t_o_entries_def t_o_largebuf_def)
  from scan_entries_reversed [OF assms(2), of "t_o_entries q" "primal_offset (queue_root q)" 0]
  show ?thesis
    unfolding lookup_offsets_def Let_def scan by auto
qed

lemma lookup_offsets_boundaries:
  assumes "queue_holds q eks" and "lookup_offsets q b e = Inr (Some (bo, eo))"
  shows "\<exists>m n. m \<le> length eks \<and> n \<le> length eks \<and>
           bo = entry_boundary (map snd eks) m \<and> eo = entry_boundary (map snd eks) n"
proof -
  let ?primal = "primal_offset (queue_root q)"
  from assms(1) have bc: "buffers_consistent q"
    by (simp add: queue_holds_def offset_index_inv_def)
  have range: "\<forall>tao\<in>set (t_o_entries q). in_int64 (offset tao - ?primal)"
    using queue_holds_offsets [OF assms(1)] by blast
  show ?thesis
  proof (cases "b \<le> e")
    case True
    note lookup = lookup_offsets_entries [OF bc True range]
    from assms(2) have found: "\<exists>tao\<in>set (t_o_entries q). b \<le> timestamp tao"
      unfolding lookup by (simp split: if_splits)
    with assms(2) have bo: "bo = first_offset b (t_o_entries q) ?primal - ?primal"
      and eo: "eo = (if \<exists>tao\<in>set (t_o_entries q). e \<le> timestamp tao
                     then first_offset e (t_o_entries q) ?primal - ?primal
                     else size_lb (keys_largebuf (queue_root q)))"
      unfolding lookup by auto
    from first_offset_boundary [OF assms(1) found, of ?primal] bo
    obtain m where m: "m \<le> length eks" "bo = entry_boundary (map snd eks) m"
      by auto
    have "\<exists>n\<le>length eks. eo = entry_boundary (map snd eks) n"
    proof (cases "\<exists>tao\<in>set (t_o_entries q). e \<le> timestamp tao")
      case True
      with first_offset_boundary [OF assms(1) True, of ?primal] eo show ?thesis
        by simp
    next
      case False
      with eo key_log_size_boundary [OF assms(1)] show ?thesis
        by auto
    qed
    with m show ?thesis
      by blast
  next
    case False
    then have "e < b"
      by simp
    from lookup_offsets_reversed [OF bc this] assms(2)
    obtain tao where tao: "tao \<in> set (t_o_entries q)" "bo = to_int64 (offset tao - ?primal)"
      "eo = to_int64 (offset tao - ?primal)"
      by auto
    from range tao(1) have "to_int64 (offset tao - ?primal) = offset tao - ?primal"
      by (simp add: to_int64_id)
    with tao entry_offset_boundary [OF assms(1), of tao] show ?thesis
      by auto
  qed
qed

lemma dump_keys_key_fits:
  assumes "queue_holds q eks"
  shows "dump_keys_from_delete_queue q b e \<noteq> Inl Rassert_key_fits"
proof (cases "b \<le> e")
  case True
  then show ?thesis
    by (simp add: dump_keys_holds [OF assms])
next
  case False
  then have "e < b"
    by simp
  from assms have "buffers_consistent q"
    by (simp add: queue_holds_def offset_index_inv_def)
  from lookup_offsets_reversed [OF this \<open>e < b\<close>] show ?thesis
    by (auto simp add: dump_keys_from_delete_queue_def Let_def)
qed

lemma dump_keys_reversed:
  assumes "buffers_consistent q" and "e < b"
  shows "dump_keys_from_delete_queue q b e = Inr [Done_deletion_keys] \<or>
         dump_keys_from_delete_queue q b e = Inl Rassert_begin_found"
proof -
  from assms(1) have "to_size_t (size_lb (timestamps_and_offsets_largebuf (queue_root q))) mod 12 = 0"
    by (simp add: buffers_consistent_def consistent_lb_def t_o_largebuf_def to_size_t_id)
  with lookup_offsets_reversed [OF assms] show ?thesis
    by (auto simp add: dump_keys_from_delete_queue_def Let_def)
qed

lemma in_range_reversed:
  fixes b e :: repli_timestamp
  assumes "e < b"
  shows "in_range b e eks = []"
  using assms by (auto simp add: in_range_def filter_empty_conv)

lemma dump_queue_abc_nothing_begins:
  "dump_keys_from_delete_queue queue_abc 200 100 = Inl Rassert_begin_found"
  by (simp add: dump_keys_from_delete_queue_def lookup_offsets_def t_o_largebuf_def queue_abc_def
      example_root_def scan_t_o.simps [of _ _ _ _ _ 0] read_at_def t_and_o_of_bytes_100 Let_def
      to_size_t_def)


section \<open>The claims\<close>

text \<open>
  C1. For the pairs enqueued on an initialised queue and any two timestamps,
  \<^verbatim>\<open>dump_keys_from_delete_queue\<close> hands the receiver exactly the keys whose effective
  (clamped) timestamp \<open>t\<close> satisfies \<open>begin_timestamp \<le> t < end_timestamp\<close>. For
  \<open>begin_timestamp \<le> end_timestamp\<close> it delivers them in enqueue order, then the completion
  signal; the effective timestamps never decrease along the enqueue order, so this is
  timestamp order with ties in enqueue order. For \<open>end_timestamp < begin_timestamp\<close> no key
  is in the range and none is delivered: the call gives the completion signal alone, or
  stops at the assertion \<^verbatim>\<open>rassert(begin_found)\<close>. In particular, after (100, a), (100, b),
  (105, c) the range [100, 105) gives a, b; [105, 9999) gives c; and [0, 100) gives nothing.
\<close>

theorem dump_keys_range_correct:
  assumes "initialize_empty_delete_queue sz dqb block_size = Inr root"
    and "valid_keys ops" and "key_log_bytes ops < 2 ^ 63"
  shows "(\<exists>lg q. add_keys_to_delete_queue (empty_queue root) ops = Inr (lg, q) \<and>
            (begin_timestamp \<le> end_timestamp \<longrightarrow>
               dump_keys_from_delete_queue q begin_timestamp end_timestamp =
                 Inr (map Deletion_key (map snd (in_range begin_timestamp end_timestamp (clamped ops))) @
                      [Done_deletion_keys])) \<and>
            (end_timestamp < begin_timestamp \<longrightarrow>
               in_range begin_timestamp end_timestamp (clamped ops) = [] \<and>
               (dump_keys_from_delete_queue q begin_timestamp end_timestamp = Inr [Done_deletion_keys] \<or>
                dump_keys_from_delete_queue q begin_timestamp end_timestamp = Inl Rassert_begin_found))) \<and>
         sorted (map fst (clamped ops)) \<and>
         (\<exists>lg q. add_keys_to_delete_queue (empty_queue root) scenario = Inr (lg, q) \<and>
            dump_keys_from_delete_queue q 100 105 =
              Inr [Deletion_key key_a, Deletion_key key_b, Done_deletion_keys] \<and>
            dump_keys_from_delete_queue q 105 9999 = Inr [Deletion_key key_c, Done_deletion_keys] \<and>
            dump_keys_from_delete_queue q 0 100 = Inr [Done_deletion_keys])"
proof -
  obtain lg q where q: "add_keys_to_delete_queue (empty_queue root) ops = Inr (lg, q)"
    "queue_holds q (clamped ops)"
    using reachable_queue_holds [OF assms(1,2,3)] by blast
  from q(2) have bc: "buffers_consistent q"
    by (simp add: queue_holds_def offset_index_inv_def)
  have 1: "begin_timestamp \<le> end_timestamp \<longrightarrow>
             dump_keys_from_delete_queue q begin_timestamp end_timestamp =
               Inr (map Deletion_key (map snd (in_range begin_timestamp end_timestamp (clamped ops))) @
                    [Done_deletion_keys])"
    using dump_keys_holds [OF q(2)] by blast
  have 2: "end_timestamp < begin_timestamp \<longrightarrow>
             in_range begin_timestamp end_timestamp (clamped ops) = [] \<and>
             (dump_keys_from_delete_queue q begin_timestamp end_timestamp = Inr [Done_deletion_keys] \<or>
              dump_keys_from_delete_queue q begin_timestamp end_timestamp = Inl Rassert_begin_found)"
    using dump_keys_reversed [OF bc] in_range_reversed by blast
  have 3: "sorted (map fst (clamped ops))"
    using q(2) by (simp add: queue_holds_def)
  obtain lg' q' where q': "add_keys_to_delete_queue (empty_queue root) scenario = Inr (lg', q')"
    "queue_holds q' scenario"
    using reachable_queue_holds [OF assms(1) scenario_valid(1,2)] by (auto simp add: clamped_scenario)
  have 4: "dump_keys_from_delete_queue q' 100 105 =
              Inr [Deletion_key key_a, Deletion_key key_b, Done_deletion_keys]"
    "dump_keys_from_delete_queue q' 105 9999 = Inr [Deletion_key key_c, Done_deletion_keys]"
    "dump_keys_from_delete_queue q' 0 100 = Inr [Done_deletion_keys]"
    using dump_keys_holds [OF q'(2), of 100 105] dump_keys_holds [OF q'(2), of 105 9999]
      dump_keys_holds [OF q'(2), of 0 100]
    by (simp_all add: in_range_scenario)
  from q(1) 1 2 have "\<exists>lg q. add_keys_to_delete_queue (empty_queue root) ops = Inr (lg, q) \<and>
            (begin_timestamp \<le> end_timestamp \<longrightarrow>
               dump_keys_from_delete_queue q begin_timestamp end_timestamp =
                 Inr (map Deletion_key (map snd (in_range begin_timestamp end_timestamp (clamped ops))) @
                      [Done_deletion_keys])) \<and>
            (end_timestamp < begin_timestamp \<longrightarrow>
               in_range begin_timestamp end_timestamp (clamped ops) = [] \<and>
               (dump_keys_from_delete_queue q begin_timestamp end_timestamp = Inr [Done_deletion_keys] \<or>
                dump_keys_from_delete_queue q begin_timestamp end_timestamp = Inl Rassert_begin_found))"
    by (intro exI [of _ lg] exI [of _ q] conjI)
  moreover from q'(1) 4 have "\<exists>lg q. add_keys_to_delete_queue (empty_queue root) scenario = Inr (lg, q) \<and>
            dump_keys_from_delete_queue q 100 105 =
              Inr [Deletion_key key_a, Deletion_key key_b, Done_deletion_keys] \<and>
            dump_keys_from_delete_queue q 105 9999 = Inr [Deletion_key key_c, Done_deletion_keys] \<and>
            dump_keys_from_delete_queue q 0 100 = Inr [Done_deletion_keys]"
    by (intro exI [of _ lg'] exI [of _ q'] conjI)
  ultimately show ?thesis
    using 3 by (intro conjI)
qed

theorem dump_keys_range_correct_witness:
  "(\<exists>lg q. add_keys_to_delete_queue (empty_queue example_root) out_of_order_scenario = Inr (lg, q) \<and>
      dump_keys_from_delete_queue q 100 101 =
        Inr [Deletion_key key_a, Deletion_key key_b, Done_deletion_keys]) \<and>
   in_range 105 100 scenario = [] \<and>
   dump_keys_from_delete_queue queue_abc 105 100 = Inl Rassert_begin_found"
proof -
  have 1: "\<exists>lg q. add_keys_to_delete_queue (empty_queue example_root) out_of_order_scenario = Inr (lg, q) \<and>
      dump_keys_from_delete_queue q 100 101 =
        Inr [Deletion_key key_a, Deletion_key key_b, Done_deletion_keys]"
    using dump_keys_range_correct [OF example_root_initialized scenario_valid(3,4), of 100 101]
    by (auto simp add: clamped_scenario in_range_def)
  have 2: "in_range 105 100 scenario = [] \<and>
    (dump_keys_from_delete_queue queue_abc 105 100 = Inr [Done_deletion_keys] \<or>
     dump_keys_from_delete_queue queue_abc 105 100 = Inl Rassert_begin_found)"
    using dump_keys_range_correct [OF example_root_initialized scenario_valid(1,2), of 105 100]
    by (simp add: clamped_scenario scenario_reaches_queue_abc)
  from 1 2 dump_queue_abc_reversed show ?thesis
    by simp
qed

text \<open>
  C2. On a queue whose Offset Index ends with an entry for the incoming timestamp, a call
  creates no entry: the Offset Index buffer is left as it was and only the Key Log grows.
  So N successive calls with one timestamp add at most one entry (exactly one on an empty
  index, or when the timestamp is newer than the last entry) and N keys to the Key Log.
\<close>

theorem coalescing:
  assumes "buffers_consistent q" and "list_all valid_key ks" and "ks \<noteq> []"
    and "- (2 ^ 63) \<le> key_log_end q" and "key_log_end q + int (length (keys_bytes ks)) < 2 ^ 63"
  shows "\<exists>lg q'. add_keys_to_delete_queue q (map (Pair ts) ks) = Inr (lg, q') \<and>
           t_o_entries q' =
             (if t_o_entries q = [] \<or> timestamp (last (t_o_entries q)) < ts
              then t_o_entries q @ [\<lparr>timestamp = ts, offset = key_log_end q\<rparr>]
              else t_o_entries q) \<and>
           (t_o_entries q \<noteq> [] \<and> timestamp (last (t_o_entries q)) = ts \<longrightarrow>
              t_o_largebuf q' = t_o_largebuf q) \<and>
           keys_contents q' = keys_contents q @ keys_bytes ks \<and>
           deliver_keys (keys_bytes ks) = Inr (map Deletion_key ks)"
proof -
  from add_keys_same_timestamp [OF assms(1,2,4) less_imp_le [OF assms(5)], of ts]
  obtain lg q' where q':
    "add_keys_to_delete_queue q (map (Pair ts) ks) = Inr (lg, q')"
    "t_o_entries q' = (if ks = [] then t_o_entries q else enqueue_entries (key_log_end q) ts (t_o_entries q))"
    "keys_contents q' = keys_contents q @ keys_bytes ks"
    "t_o_entries q \<noteq> [] \<and> \<not> timestamp (last (t_o_entries q)) < ts \<longrightarrow> t_o_largebuf q' = t_o_largebuf q"
    by blast
  have 2: "t_o_entries q' =
             (if t_o_entries q = [] \<or> timestamp (last (t_o_entries q)) < ts
              then t_o_entries q @ [\<lparr>timestamp = ts, offset = key_log_end q\<rparr>]
              else t_o_entries q)"
    using q'(2) assms(3) by (simp add: enqueue_entries_def)
  have 3: "t_o_entries q \<noteq> [] \<and> timestamp (last (t_o_entries q)) = ts \<longrightarrow> t_o_largebuf q' = t_o_largebuf q"
    using q'(4) by simp
  have 5: "deliver_keys (keys_bytes ks) = Inr (map Deletion_key ks)"
    by (rule deliver_keys_keys_bytes [OF assms(2)])
  from q'(1) 2 3 q'(3) 5 show ?thesis
    by blast
qed

theorem coalescing_witness:
  "(\<exists>lg q'. add_keys_to_delete_queue (empty_queue example_root)
       [(100, key_a), (100, key_b), (100, key_c)] = Inr (lg, q') \<and>
     t_o_entries q' = [\<lparr>timestamp = 100, offset = 0\<rparr>] \<and>
     keys_contents q' = [1, 97, 1, 98, 1, 99] \<and>
     deliver_keys [1, 97, 1, 98, 1, 99] =
       Inr [Deletion_key key_a, Deletion_key key_b, Deletion_key key_c]) \<and>
   (\<exists>lg q'. add_keys_to_delete_queue queue_a [(100, key_b)] = Inr (lg, q') \<and>
     t_o_largebuf q' = t_o_largebuf queue_a \<and>
     t_o_entries q' = [\<lparr>timestamp = 100, offset = 0\<rparr>] \<and>
     keys_contents q' = [1, 97, 1, 98])"
proof -
  have e: "t_o_entries (empty_queue example_root) = []"
    by (simp add: t_o_entries_def entries_of_def t_o_largebuf_def empty_queue_def example_root_def)
  have k: "key_log_end (empty_queue example_root) = 0"
    by (simp add: key_log_end_def empty_queue_def example_root_def)
  have c: "keys_contents (empty_queue example_root) = []" "keys_contents queue_a = [1, 97]"
    by (simp_all add: empty_queue_def queue_a_def)
  have b: "keys_bytes [key_a, key_b, key_c] = [1, 97, 1, 98, 1, 99]" "keys_bytes [key_b] = [1, 98]"
    by (simp_all add: keys_bytes_def store_key_bytes_def key_a_def key_b_def key_c_def)
  have v: "list_all valid_key [key_a, key_b, key_c]" "list_all valid_key [key_b]"
    by (simp_all add: valid_key_def key_a_def key_b_def key_c_def)
  have 1: "\<exists>lg q'. add_keys_to_delete_queue (empty_queue example_root)
       [(100, key_a), (100, key_b), (100, key_c)] = Inr (lg, q') \<and>
     t_o_entries q' = [\<lparr>timestamp = 100, offset = 0\<rparr>] \<and>
     keys_contents q' = [1, 97, 1, 98, 1, 99] \<and>
     deliver_keys [1, 97, 1, 98, 1, 99] =
       Inr [Deletion_key key_a, Deletion_key key_b, Deletion_key key_c]"
    using coalescing [OF buffers_consistent_example v(1), of 100]
    unfolding e k c b by simp
  have 2: "\<exists>lg q'. add_keys_to_delete_queue queue_a [(100, key_b)] = Inr (lg, q') \<and>
     t_o_largebuf q' = t_o_largebuf queue_a \<and>
     t_o_entries q' = [\<lparr>timestamp = 100, offset = 0\<rparr>] \<and>
     keys_contents q' = [1, 97, 1, 98]"
    using coalescing [OF queue_a_consistent(1) v(2), of 100]
    unfolding queue_a_entries queue_a_consistent(2) c b by auto
  from 1 2 show ?thesis
    by (rule conjI)
qed

text \<open>
  C3. A call whose timestamp is smaller than the timestamp \<open>T_last\<close> of the last entry of
  the Offset Index logs a warning, takes \<open>T_last\<close> as its timestamp (so no entry is added)
  and still appends the key to the Key Log: it returns normally. Afterwards the key is
  delivered under \<open>T_last\<close>, behind the keys enqueued under \<open>T_last\<close> before it. In
  particular, after (100, a) and (50, b) the Offset Index is the single entry (100, 0), and
  the range [100, 101) gives a, b.
\<close>

theorem out_of_order_clamped:
  assumes "initialize_empty_delete_queue sz dqb block_size = Inr root"
    and "valid_keys ops" and "valid_key key"
    and "key_log_bytes (ops @ [(ts, key)]) < 2 ^ 63"
    and "ops \<noteq> []" and "ts < fst (last (clamped ops))"
  shows "(\<exists>lg q q'. add_keys_to_delete_queue (empty_queue root) ops = Inr (lg, q) \<and>
            timestamp (last (t_o_entries q)) = fst (last (clamped ops)) \<and>
            add_key_to_delete_queue q ts key =
              Inr ([LogWRN_out_of_order (fst (last (clamped ops))) ts], q') \<and>
            t_o_largebuf q' = t_o_largebuf q \<and>
            keys_contents q' = keys_contents q @ store_key_bytes key \<and>
            (\<forall>e. fst (last (clamped ops)) < e \<longrightarrow>
               dump_keys_from_delete_queue q' (fst (last (clamped ops))) e =
                 Inr (map Deletion_key (map snd (in_range (fst (last (clamped ops))) e (clamped ops))) @
                      [Deletion_key key, Done_deletion_keys]))) \<and>
         (\<exists>q. add_keys_to_delete_queue (empty_queue root) out_of_order_scenario =
                 Inr ([LogWRN_out_of_order 100 50], q) \<and>
              t_o_entries q = [\<lparr>timestamp = 100, offset = 0\<rparr>] \<and>
              dump_keys_from_delete_queue q 100 101 =
                Inr [Deletion_key key_a, Deletion_key key_b, Done_deletion_keys])"
proof -
  let ?T = "fst (last (clamped ops))"
  have bytes: "key_log_bytes (ops @ [(ts, key)]) = key_log_bytes ops + 1 + uint (size_key key)"
    using key_log_bytes_single [OF assms(3), of ts] by simp
  have nn: "0 \<le> uint (size_key key)" "0 \<le> key_log_bytes ops"
    by (simp_all add: key_log_bytes_nonneg)
  have bound: "key_log_bytes ops < 2 ^ 63"
    using assms(4) bytes nn by linarith
  obtain lg q where q: "add_keys_to_delete_queue (empty_queue root) ops = Inr (lg, q)"
    "queue_holds q (clamped ops)"
    using reachable_queue_holds [OF assms(1,2) bound] by blast
  have kle: "key_log_end q = key_log_bytes ops"
    by (rule reachable_key_log_end [OF assms(1) q])
  have range: "key_log_end q + 1 + uint (size_key key) < 2 ^ 63"
    unfolding kle using assms(4) bytes by linarith
  have ne: "clamped ops \<noteq> []"
    using assms(5) by (simp add: clamped_Nil_iff)
  with q(2) have lst: "timestamp (last (t_o_entries q)) = ?T"
    by (simp add: queue_holds_def)
  obtain q' where q': "add_key_to_delete_queue q ts key = Inr ([LogWRN_out_of_order ?T ts], q')"
    "queue_holds q' (clamped ops @ [(?T, key)])"
    "t_o_largebuf q' = t_o_largebuf q"
    "keys_contents q' = keys_contents q @ store_key_bytes key"
    using add_key_out_of_order [OF q(2) ne assms(3) range assms(6)] by blast
  have dump: "dump_keys_from_delete_queue q' ?T e =
                Inr (map Deletion_key (map snd (in_range ?T e (clamped ops))) @
                     [Deletion_key key, Done_deletion_keys])"
    if "?T < e" for e
    using dump_keys_holds [OF q'(2), of ?T e] that by (simp add: in_range_snoc_last)
  have general: "\<exists>lg q q'. add_keys_to_delete_queue (empty_queue root) ops = Inr (lg, q) \<and>
            timestamp (last (t_o_entries q)) = ?T \<and>
            add_key_to_delete_queue q ts key = Inr ([LogWRN_out_of_order ?T ts], q') \<and>
            t_o_largebuf q' = t_o_largebuf q \<and>
            keys_contents q' = keys_contents q @ store_key_bytes key \<and>
            (\<forall>e. ?T < e \<longrightarrow>
               dump_keys_from_delete_queue q' ?T e =
                 Inr (map Deletion_key (map snd (in_range ?T e (clamped ops))) @
                      [Deletion_key key, Done_deletion_keys]))"
    using q(1) lst q'(1,3,4) dump by blast
  have va: "valid_key key_a" and vb: "valid_key key_b"
    by (simp_all add: valid_key_def key_a_def key_b_def)
  obtain q1 where q1: "add_key_to_delete_queue (empty_queue root) 100 key_a = Inr ([], q1)"
    "queue_holds q1 [(100, key_a)]" "t_o_entries q1 = [\<lparr>timestamp = 100, offset = 0\<rparr>]"
    "key_log_end q1 = 1 + uint (size_key key_a)"
    using add_key_first [OF assms(1) va, of 100] by blast
  have r1: "key_log_end q1 + 1 + uint (size_key key_b) < 2 ^ 63"
    by (simp add: q1(4) key_a_def key_b_def)
  obtain q2 where q2: "add_key_to_delete_queue q1 50 key_b = Inr ([LogWRN_out_of_order 100 50], q2)"
    "queue_holds q2 [(100, key_a), (100, key_b)]" "t_o_largebuf q2 = t_o_largebuf q1"
    using add_key_out_of_order [OF q1(2) _ vb r1, of 50] by auto
  have "add_keys_to_delete_queue (empty_queue root) out_of_order_scenario =
          Inr ([LogWRN_out_of_order 100 50], q2)"
    using q1(1) q2(1) by (simp add: out_of_order_scenario_def)
  moreover have "t_o_entries q2 = [\<lparr>timestamp = 100, offset = 0\<rparr>]"
    using q2(3) q1(3) by (simp add: t_o_entries_def)
  moreover have "dump_keys_from_delete_queue q2 100 101 =
      Inr [Deletion_key key_a, Deletion_key key_b, Done_deletion_keys]"
    using dump_keys_holds [OF q2(2), of 100 101] by (simp add: in_range_def)
  ultimately have "\<exists>q. add_keys_to_delete_queue (empty_queue root) out_of_order_scenario =
                 Inr ([LogWRN_out_of_order 100 50], q) \<and>
              t_o_entries q = [\<lparr>timestamp = 100, offset = 0\<rparr>] \<and>
              dump_keys_from_delete_queue q 100 101 =
                Inr [Deletion_key key_a, Deletion_key key_b, Done_deletion_keys]"
    by blast
  with general show ?thesis
    by (rule conjI)
qed

theorem out_of_order_clamped_witness:
  "\<exists>lg q q'. add_keys_to_delete_queue (empty_queue example_root) scenario = Inr (lg, q) \<and>
      timestamp (last (t_o_entries q)) = 105 \<and>
      add_key_to_delete_queue q 101 key_a = Inr ([LogWRN_out_of_order 105 101], q') \<and>
      t_o_largebuf q' = t_o_largebuf q \<and>
      keys_contents q' = keys_contents q @ [1, 97] \<and>
      dump_keys_from_delete_queue q' 105 106 =
        Inr [Deletion_key key_c, Deletion_key key_a, Done_deletion_keys]"
proof -
  have v: "valid_key key_a"
    by (simp add: valid_key_def key_a_def)
  have b: "key_log_bytes (scenario @ [(101, key_a)]) < 2 ^ 63"
    by (simp add: key_log_bytes_def keys_bytes_def store_key_bytes_def scenario_def key_a_def
        key_b_def key_c_def)
  have n: "scenario \<noteq> []" and l: "fst (last scenario) = 105"
    by (simp_all add: scenario_def)
  have lt: "(101 :: repli_timestamp) < 105"
    by simp
  have s: "store_key_bytes key_a = [1, 97]"
    by (simp add: store_key_bytes_def key_a_def)
  have i: "in_range 105 106 scenario = [(105, key_c)]"
    by (simp add: in_range_def scenario_def)
  from out_of_order_clamped [OF example_root_initialized scenario_valid(1) v b n,
      unfolded clamped_scenario(1) l s, OF lt]
  obtain lg q q' where "add_keys_to_delete_queue (empty_queue example_root) scenario = Inr (lg, q)"
    "timestamp (last (t_o_entries q)) = 105"
    "add_key_to_delete_queue q 101 key_a = Inr ([LogWRN_out_of_order 105 101], q')"
    "t_o_largebuf q' = t_o_largebuf q"
    "keys_contents q' = keys_contents q @ [1, 97]"
    "\<forall>e. 105 < e \<longrightarrow> dump_keys_from_delete_queue q' 105 e =
       Inr (map Deletion_key (map snd (in_range 105 e scenario)) @ [Deletion_key key_a, Done_deletion_keys])"
    by auto
  moreover from this(6) have "dump_keys_from_delete_queue q' 105 106 =
        Inr [Deletion_key key_c, Deletion_key key_a, Done_deletion_keys]"
    by (simp add: i)
  ultimately show ?thesis
    by blast
qed

text \<open>
  C4. The Offset Index is a sequence of 12-byte entries that increases strictly in
  timestamp and in offset, and its size in bytes is a multiple of 12. Initialisation
  establishes the invariant, with size 0; every call of \<^verbatim>\<open>add_key_to_delete_queue\<close>
  preserves it (together with the fact that makes it inductive: every stored offset lies
  before the end of the Key Log); so it holds after any sequence of calls.
\<close>

theorem offset_index_invariant:
  assumes "initialize_empty_delete_queue sz dqb block_size = Inr root"
    and "valid_keys ops" and "key_log_bytes ops < 2 ^ 63"
  shows "offset_index_inv (empty_queue root) \<and>
         size_lb (timestamps_and_offsets_largebuf (queue_root (empty_queue root))) = 0 \<and>
         (\<forall>q ts key. offset_index_inv q \<and> valid_key key \<and> in_int64 (key_log_end q) \<longrightarrow>
            (\<exists>lg q'. add_key_to_delete_queue q ts key = Inr (lg, q') \<and> offset_index_inv q')) \<and>
         (\<exists>lg q. add_keys_to_delete_queue (empty_queue root) ops = Inr (lg, q) \<and>
            offset_index_inv q \<and>
            size_lb (timestamps_and_offsets_largebuf (queue_root q)) mod 12 = 0 \<and>
            size_lb (timestamps_and_offsets_largebuf (queue_root q)) = 12 * int (length (t_o_entries q)) \<and>
            int (length (t_o_contents q)) = size_lb (timestamps_and_offsets_largebuf (queue_root q)) \<and>
            sorted_wrt (<) (map timestamp (t_o_entries q)) \<and>
            sorted_wrt (<) (map offset (t_o_entries q)))"
proof -
  have 1: "offset_index_inv (empty_queue root)"
    by (rule offset_index_inv_empty [OF assms(1)])
  have 2: "size_lb (timestamps_and_offsets_largebuf (queue_root (empty_queue root))) = 0"
    using initialize_empty_delete_queue_sizes [OF assms(1)] by (simp add: empty_queue_def)
  have 3: "\<exists>lg q'. add_key_to_delete_queue q ts key = Inr (lg, q') \<and> offset_index_inv q'"
    if "offset_index_inv q \<and> valid_key key \<and> in_int64 (key_log_end q)" for q ts key
    using offset_index_inv_add_key [of q key ts] that by blast
  obtain lg q where q: "add_keys_to_delete_queue (empty_queue root) ops = Inr (lg, q)"
    "queue_holds q (clamped ops)"
    using reachable_queue_holds [OF assms] by blast
  then have inv: "offset_index_inv q"
    by (simp add: queue_holds_def)
  from 3 have step: "\<forall>q ts key. offset_index_inv q \<and> valid_key key \<and> in_int64 (key_log_end q) \<longrightarrow>
            (\<exists>lg q'. add_key_to_delete_queue q ts key = Inr (lg, q') \<and> offset_index_inv q')"
    by blast
  have 4: "\<exists>lg q. add_keys_to_delete_queue (empty_queue root) ops = Inr (lg, q) \<and>
            offset_index_inv q \<and>
            size_lb (timestamps_and_offsets_largebuf (queue_root q)) mod 12 = 0 \<and>
            size_lb (timestamps_and_offsets_largebuf (queue_root q)) = 12 * int (length (t_o_entries q)) \<and>
            int (length (t_o_contents q)) = size_lb (timestamps_and_offsets_largebuf (queue_root q)) \<and>
            sorted_wrt (<) (map timestamp (t_o_entries q)) \<and>
            sorted_wrt (<) (map offset (t_o_entries q))"
    using q(1) inv offset_index_inv_properties [OF inv]
    by (intro exI [of _ lg] exI [of _ q] conjI)
  from 1 2 step 4 show ?thesis
    by (intro conjI)
qed

theorem offset_index_invariant_witness:
  "offset_index_inv (empty_queue example_root) \<and>
   (\<exists>lg q'. add_key_to_delete_queue (empty_queue example_root) 100 key_a = Inr (lg, q') \<and>
      offset_index_inv q') \<and>
   (\<exists>lg q. add_keys_to_delete_queue (empty_queue example_root) out_of_order_scenario = Inr (lg, q) \<and>
      size_lb (timestamps_and_offsets_largebuf (queue_root q)) mod 12 = 0 \<and>
      sorted_wrt (<) (map timestamp (t_o_entries q)) \<and>
      sorted_wrt (<) (map offset (t_o_entries q)))"
proof -
  note inst = offset_index_invariant [OF example_root_initialized scenario_valid(3,4)]
  have v: "valid_key key_a"
    by (simp add: valid_key_def key_a_def)
  have r: "in_int64 (key_log_end (empty_queue example_root))"
    by (simp add: in_int64_def key_log_end_def empty_queue_def example_root_def)
  from inst have i: "offset_index_inv (empty_queue example_root)"
    by blast
  from inst have "\<forall>q ts key. offset_index_inv q \<and> valid_key key \<and> in_int64 (key_log_end q) \<longrightarrow>
            (\<exists>lg q'. add_key_to_delete_queue q ts key = Inr (lg, q') \<and> offset_index_inv q')"
    by blast
  with i v r have A: "\<exists>lg q'. add_key_to_delete_queue (empty_queue example_root) 100 key_a = Inr (lg, q') \<and>
      offset_index_inv q'"
    by blast
  from inst obtain lg q where
    "add_keys_to_delete_queue (empty_queue example_root) out_of_order_scenario = Inr (lg, q)"
    "size_lb (timestamps_and_offsets_largebuf (queue_root q)) mod 12 = 0"
    "sorted_wrt (<) (map timestamp (t_o_entries q))"
    "sorted_wrt (<) (map offset (t_o_entries q))"
    by (elim conjE exE)
  then have B: "\<exists>lg q. add_keys_to_delete_queue (empty_queue example_root) out_of_order_scenario = Inr (lg, q) \<and>
      size_lb (timestamps_and_offsets_largebuf (queue_root q)) mod 12 = 0 \<and>
      sorted_wrt (<) (map timestamp (t_o_entries q)) \<and>
      sorted_wrt (<) (map offset (t_o_entries q))"
    by (intro exI [of _ lg] exI [of _ q] conjI)
  from i A B show ?thesis
    by (intro conjI)
qed

text \<open>
  C5. The completion signal is not given on every path. On the queue that
  \<^verbatim>\<open>initialize_empty_delete_queue\<close> and the calls (100, a), (100, b), (105, c) of
  \<^verbatim>\<open>add_key_to_delete_queue\<close> produce, a call of \<^verbatim>\<open>dump_keys_from_delete_queue\<close> with the end
  timestamp 100 and a larger begin timestamp meets the entry of timestamp 100, which is at
  or after the end, before it has found an entry at or after the begin. The assertion
  \<^verbatim>\<open>rassert(begin_found)\<close> fails during the scan, so the call stops before any call on the
  receiver: no key is delivered and \<^verbatim>\<open>done_deletion_keys\<close> is not invoked. This is so
  for the begin timestamp 105, and for the begin timestamp 200, where no entry has a
  timestamp at or after \<open>begin_timestamp\<close>. The range from 100 to 105 on the same queue ends
  with the signal.
\<close>

theorem done_deletion_keys_not_invoked:
  "initialize_empty_delete_queue sizes_64 example_block 4096 = Inr example_root \<and>
   add_keys_to_delete_queue (empty_queue example_root) scenario = Inr ([], queue_abc) \<and>
   map timestamp (t_o_entries queue_abc) = [100, 105] \<and>
   dump_keys_from_delete_queue queue_abc 200 100 = Inl Rassert_begin_found \<and>
   dump_keys_from_delete_queue queue_abc 105 100 = Inl Rassert_begin_found \<and>
   dump_keys_from_delete_queue queue_abc 100 105 =
     Inr [Deletion_key key_a, Deletion_key key_b, Done_deletion_keys]"
proof -
  have "\<exists>lg q. add_keys_to_delete_queue (empty_queue example_root) scenario = Inr (lg, q) \<and>
      queue_holds q (clamped scenario)"
    by (rule reachable_queue_holds [OF example_root_initialized scenario_valid(1,2)])
  then have "queue_holds queue_abc scenario"
    by (simp add: scenario_reaches_queue_abc clamped_scenario)
  from dump_keys_holds [OF this, of 100 105]
  have "dump_keys_from_delete_queue queue_abc 100 105 =
     Inr [Deletion_key key_a, Deletion_key key_b, Done_deletion_keys]"
    by (simp add: in_range_scenario)
  moreover have "map timestamp (t_o_entries queue_abc) = [100, 105]"
    by (simp add: queue_abc_entries)
  ultimately show ?thesis
    using example_root_initialized scenario_reaches_queue_abc dump_queue_abc_nothing_begins
      dump_queue_abc_reversed
    by (intro conjI)
qed

text \<open>
  C6. The assertion \<^verbatim>\<open>rassert(begin_found)\<close> fails on a queue that only
  \<^verbatim>\<open>initialize_empty_delete_queue\<close> and \<^verbatim>\<open>add_key_to_delete_queue\<close> have written. After
  (100, a), (100, b), (105, c) the Offset Index holds the entries (100, 0) and (105, 4).
  In the scan for the begin timestamp 105 and the end timestamp 100, the first entry has
  a timestamp at or after the end and before the begin: an entry that ends the range is
  met before one that begins it, and the scan, and with it
  \<^verbatim>\<open>dump_keys_from_delete_queue\<close>, stops at the assertion. (For
  \<open>begin_timestamp \<le> end_timestamp\<close> the assertion holds in every state of the queue and
  from every point of the scan: lemmas \<open>scan_t_o_begin_found\<close> and \<open>dump_keys_begin_found\<close>.)
\<close>

theorem begin_found_counterexample:
  "initialize_empty_delete_queue sizes_64 example_block 4096 = Inr example_root \<and>
   add_keys_to_delete_queue (empty_queue example_root) scenario = Inr ([], queue_abc) \<and>
   t_o_entries queue_abc = [\<lparr>timestamp = 100, offset = 0\<rparr>, \<lparr>timestamp = 105, offset = 4\<rparr>] \<and>
   scan_t_o (t_o_largebuf queue_abc) 0 105 100 24 0 False 0 = Inl Rassert_begin_found \<and>
   dump_keys_from_delete_queue queue_abc 105 100 = Inl Rassert_begin_found"
proof -
  have "scan_t_o (t_o_largebuf queue_abc) 0 105 100 24 0 False 0 = Inl Rassert_begin_found"
    by (simp add: t_o_largebuf_def queue_abc_def example_root_def scan_t_o.simps [of _ _ _ _ _ 0]
        read_at_def t_and_o_of_bytes_100 Let_def)
  with example_root_initialized scenario_reaches_queue_abc queue_abc_entries
    dump_queue_abc_reversed
  show ?thesis
    by (intro conjI)
qed



text \<open>
  C8. \<^verbatim>\<open>initialize_empty_delete_queue\<close> writes the magic tag \<^verbatim>\<open>DelQ\<close>, sets the primal offset
  to 0 and leaves both references unallocated: offset 0, size 0 and every embedded block id
  equal to \<^verbatim>\<open>NULL_BLOCK_ID\<close>. The sizes of the types are sizes that types can have, and the
  block size is one that an \<^verbatim>\<open>int\<close> holds, as \<^verbatim>\<open>keys_largebuf_ref_size\<close> returns an \<^verbatim>\<open>int\<close>;
  the block is large enough for both references to embed block ids (the assertion
  \<^verbatim>\<open>ids_bytes > 0\<close>), and each reference of the block has the block ids its bytes embed.
\<close>

theorem initialize_empty_delete_queue_unallocated:
  assumes "valid_sizes sz" and "0 \<le> block_size" and "block_size < 2 ^ 31"
    and "offsetof_block_ids sz < TIMESTAMPS_AND_OFFSETS_SIZE sz"
    and "offsetof_block_ids sz < keys_largebuf_ref_size sz block_size"
    and "length (block_ids (timestamps_and_offsets_largebuf dqb)) =
           embedded_ids sz (TIMESTAMPS_AND_OFFSETS_SIZE sz)"
    and "length (block_ids (keys_largebuf dqb)) =
           embedded_ids sz (keys_largebuf_ref_size sz block_size)"
  shows "\<exists>root. initialize_empty_delete_queue sz dqb block_size = Inr root \<and>
           magic root = ''DelQ'' \<and> primal_offset root = 0 \<and>
           offset_lb (timestamps_and_offsets_largebuf root) = 0 \<and>
           size_lb (timestamps_and_offsets_largebuf root) = 0 \<and>
           length (block_ids (timestamps_and_offsets_largebuf root)) =
             length (block_ids (timestamps_and_offsets_largebuf dqb)) \<and>
           list_all (\<lambda>id. id = NULL_BLOCK_ID) (block_ids (timestamps_and_offsets_largebuf root)) \<and>
           offset_lb (keys_largebuf root) = 0 \<and>
           size_lb (keys_largebuf root) = 0 \<and>
           length (block_ids (keys_largebuf root)) = length (block_ids (keys_largebuf dqb)) \<and>
           list_all (\<lambda>id. id = NULL_BLOCK_ID) (block_ids (keys_largebuf root))"
  using assms(6,7) initialize_empty_delete_queue_Inr [OF assms]
  by (simp add: expected_magic_def list_all_iff)

theorem initialize_empty_delete_queue_unallocated_witness:
  "valid_sizes sizes_64 \<and> (4096 :: int) < 2 ^ 31 \<and>
   offsetof_block_ids sizes_64 < TIMESTAMPS_AND_OFFSETS_SIZE sizes_64 \<and>
   offsetof_block_ids sizes_64 < keys_largebuf_ref_size sizes_64 4096 \<and>
   (\<exists>root. initialize_empty_delete_queue sizes_64 example_block 4096 = Inr root \<and>
      magic root = ''DelQ'' \<and> primal_offset root = 0 \<and>
      timestamps_and_offsets_largebuf root =
        \<lparr>size_lb = 0, offset_lb = 0, block_ids = replicate 3 NULL_BLOCK_ID\<rparr> \<and>
      size_lb (keys_largebuf root) = 0 \<and> offset_lb (keys_largebuf root) = 0 \<and>
      length (block_ids (keys_largebuf root)) = 1010 \<and>
      list_all (\<lambda>id. id = NULL_BLOCK_ID) (block_ids (keys_largebuf root)))"
proof -
  have 4: "length (block_ids (timestamps_and_offsets_largebuf example_block)) = 3"
    "length (block_ids (keys_largebuf example_block)) = 1010"
    by (simp_all add: example_block_def)
  show ?thesis
    using initialize_empty_delete_queue_unallocated [OF valid_sizes_64, of 4096 example_block]
      valid_sizes_64
    unfolding sizes_64_constants 4
    by (auto simp add: example_root_initialized example_root_def)
qed

text \<open>
  C9. After any sequence of calls on an initialised queue the two buffers are allocated
  together: the size of the Offset Index is 0 exactly when the size of the Key Log is 0
  (and exactly when nothing was enqueued), so the guard of \<^verbatim>\<open>dump_keys_from_delete_queue\<close>,
  which asks for both sizes to be nonzero, holds exactly when either is nonzero.
\<close>

theorem buffers_allocated_together:
  assumes "initialize_empty_delete_queue sz dqb block_size = Inr root"
    and "valid_keys ops" and "key_log_bytes ops < 2 ^ 63"
  shows "\<exists>lg q. add_keys_to_delete_queue (empty_queue root) ops = Inr (lg, q) \<and>
           (size_lb (timestamps_and_offsets_largebuf (queue_root q)) = 0 \<longleftrightarrow>
              size_lb (keys_largebuf (queue_root q)) = 0) \<and>
           (size_lb (keys_largebuf (queue_root q)) = 0 \<longleftrightarrow> ops = []) \<and>
           (size_lb (timestamps_and_offsets_largebuf (queue_root q)) \<noteq> 0 \<and>
              size_lb (keys_largebuf (queue_root q)) \<noteq> 0 \<longleftrightarrow>
            size_lb (timestamps_and_offsets_largebuf (queue_root q)) \<noteq> 0 \<or>
              size_lb (keys_largebuf (queue_root q)) \<noteq> 0)"
proof -
  obtain lg q where q: "add_keys_to_delete_queue (empty_queue root) ops = Inr (lg, q)"
    "queue_holds q (clamped ops)"
    using reachable_queue_holds [OF assms] by blast
  from q(2) have emp: "t_o_entries q = [] \<longleftrightarrow> clamped ops = []"
    by (simp add: queue_holds_def)
  have t: "size_lb (timestamps_and_offsets_largebuf (queue_root q)) = 0 \<longleftrightarrow> ops = []"
    using queue_holds_sizes(1) [OF q(2)] emp by (simp add: clamped_Nil_iff)
  have k: "size_lb (keys_largebuf (queue_root q)) = 0 \<longleftrightarrow> ops = []"
    using queue_holds_sizes(2) [OF q(2)] by (simp add: key_log_bytes_zero clamped_Nil_iff)
  from q(1) t k show ?thesis
    by blast
qed

theorem buffers_allocated_together_witness:
  "\<exists>lg q. add_keys_to_delete_queue (empty_queue example_root) scenario = Inr (lg, q) \<and>
      size_lb (timestamps_and_offsets_largebuf (queue_root q)) \<noteq> 0 \<and>
      size_lb (keys_largebuf (queue_root q)) \<noteq> 0"
  using buffers_allocated_together [OF example_root_initialized scenario_valid(1,2)]
  by (auto simp add: scenario_def)

text \<open>
  C10. For every queue reached from an initialised one by calls of
  \<^verbatim>\<open>add_key_to_delete_queue\<close>: each offset stored in the Offset Index, minus the primal
  offset, is the position of an entry boundary of the Key Log; so are the two offsets of
  every slice that \<^verbatim>\<open>dump_keys_from_delete_queue\<close> fetches, for any pair of timestamps; the
  walk over the bytes between two boundaries delivers the keys between them, one length
  prefix after the other; and the check \<^verbatim>\<open>rassert(k->size + 1 <= e - p)\<close> never fails.
\<close>

theorem key_log_walk_on_boundaries:
  assumes "initialize_empty_delete_queue sz dqb block_size = Inr root"
    and "valid_keys ops" and "key_log_bytes ops < 2 ^ 63"
  shows "\<exists>lg q. add_keys_to_delete_queue (empty_queue root) ops = Inr (lg, q) \<and>
           keys_contents q = keys_bytes (map snd ops) \<and>
           (\<forall>tao\<in>set (t_o_entries q). \<exists>n\<le>length ops.
              offset tao - primal_offset (queue_root q) = entry_boundary (map snd ops) n) \<and>
           (\<forall>b e bo eo. lookup_offsets q b e = Inr (Some (bo, eo)) \<longrightarrow>
              (\<exists>m n. m \<le> length ops \<and> n \<le> length ops \<and>
                 bo = entry_boundary (map snd ops) m \<and> eo = entry_boundary (map snd ops) n)) \<and>
           (\<forall>m n. m \<le> n \<and> n \<le> length ops \<longrightarrow>
              deliver_keys (read_at (entry_boundary (map snd ops) m)
                  (entry_boundary (map snd ops) n - entry_boundary (map snd ops) m)
                  (keys_largebuf_of q)) =
                Inr (map Deletion_key (drop m (take n (map snd ops))))) \<and>
           (\<forall>b e. dump_keys_from_delete_queue q b e \<noteq> Inl Rassert_key_fits)"
proof -
  obtain lg q where q: "add_keys_to_delete_queue (empty_queue root) ops = Inr (lg, q)"
    "queue_holds q (clamped ops)"
    using reachable_queue_holds [OF assms] by blast
  have 1: "keys_contents q = keys_bytes (map snd ops)"
    using q(2) by (simp add: queue_holds_def map_snd_clamped)
  have 2: "\<forall>tao\<in>set (t_o_entries q). \<exists>n\<le>length ops.
              offset tao - primal_offset (queue_root q) = entry_boundary (map snd ops) n"
    using entry_offset_boundary [OF q(2)] by (simp add: map_snd_clamped length_clamped)
  have 3: "\<forall>b e bo eo. lookup_offsets q b e = Inr (Some (bo, eo)) \<longrightarrow>
              (\<exists>m n. m \<le> length ops \<and> n \<le> length ops \<and>
                 bo = entry_boundary (map snd ops) m \<and> eo = entry_boundary (map snd ops) n)"
    using lookup_offsets_boundaries [OF q(2)] by (simp add: map_snd_clamped length_clamped)
  have valid: "list_all valid_key (map snd ops)"
    using assms(2) by (simp add: valid_keys_def list_all_iff)
  have 4: "\<forall>m n. m \<le> n \<and> n \<le> length ops \<longrightarrow>
              deliver_keys (read_at (entry_boundary (map snd ops) m)
                  (entry_boundary (map snd ops) n - entry_boundary (map snd ops) m)
                  (keys_largebuf_of q)) =
                Inr (map Deletion_key (drop m (take n (map snd ops))))"
    using deliver_keys_between_boundaries [OF valid]
    by (simp add: read_at_def keys_largebuf_of_def 1)
  have 5: "\<forall>b e. dump_keys_from_delete_queue q b e \<noteq> Inl Rassert_key_fits"
    using dump_keys_key_fits [OF q(2)] by blast
  from q(1) 1 2 3 4 5 show ?thesis
    by (intro exI [of _ lg] exI [of _ q] conjI)
qed

theorem key_log_walk_on_boundaries_witness:
  "keys_contents queue_abc = [1, 97, 1, 98, 1, 99] \<and>
   (\<exists>n\<le>3. offset \<lparr>timestamp = 105, offset = 4\<rparr> - primal_offset (queue_root queue_abc) =
      entry_boundary [key_a, key_b, key_c] n) \<and>
   (\<exists>m n. m \<le> 3 \<and> n \<le> 3 \<and> lookup_offsets queue_abc 100 105 =
      Inr (Some (entry_boundary [key_a, key_b, key_c] m, entry_boundary [key_a, key_b, key_c] n))) \<and>
   deliver_keys (read_at 2 4 (keys_largebuf_of queue_abc)) =
     Inr [Deletion_key key_b, Deletion_key key_c] \<and>
   dump_keys_from_delete_queue queue_abc 105 100 \<noteq> Inl Rassert_key_fits"
proof -
  have ks: "map snd scenario = [key_a, key_b, key_c]" "length scenario = 3"
    by (simp_all add: scenario_def)
  have b: "entry_boundary [key_a, key_b, key_c] (Suc 0) = 2" "entry_boundary [key_a, key_b, key_c] 3 = 6"
    by (simp_all add: entry_boundary_def keys_bytes_def store_key_bytes_def key_a_def key_b_def
        key_c_def)
  have kb: "keys_bytes [key_a, key_b, key_c] = [1, 97, 1, 98, 1, 99]"
    by (simp add: keys_bytes_def store_key_bytes_def key_a_def key_b_def key_c_def)
  have lk: "lookup_offsets queue_abc 100 105 = Inr (Some (0, 4))"
    by (simp add: lookup_offsets_entries [OF queue_abc_consistent _ queue_abc_range] queue_abc_entries)
      (simp add: queue_abc_def example_root_def)
  from key_log_walk_on_boundaries [OF example_root_initialized scenario_valid(1,2)]
  have inst: "keys_contents queue_abc = [1, 97, 1, 98, 1, 99]"
    "\<forall>tao\<in>set (t_o_entries queue_abc). \<exists>n\<le>3.
        offset tao - primal_offset (queue_root queue_abc) = entry_boundary [key_a, key_b, key_c] n"
    "\<forall>b e bo eo. lookup_offsets queue_abc b e = Inr (Some (bo, eo)) \<longrightarrow>
        (\<exists>m n. m \<le> 3 \<and> n \<le> 3 \<and>
           bo = entry_boundary [key_a, key_b, key_c] m \<and> eo = entry_boundary [key_a, key_b, key_c] n)"
    "\<forall>m n. m \<le> n \<and> n \<le> 3 \<longrightarrow>
        deliver_keys (read_at (entry_boundary [key_a, key_b, key_c] m)
            (entry_boundary [key_a, key_b, key_c] n - entry_boundary [key_a, key_b, key_c] m)
            (keys_largebuf_of queue_abc)) =
          Inr (map Deletion_key (drop m (take n [key_a, key_b, key_c])))"
    "\<forall>b e. dump_keys_from_delete_queue queue_abc b e \<noteq> Inl Rassert_key_fits"
    unfolding scenario_reaches_queue_abc ks kb by simp_all
  have 2: "\<exists>n\<le>3. offset \<lparr>timestamp = 105, offset = 4\<rparr> - primal_offset (queue_root queue_abc) =
      entry_boundary [key_a, key_b, key_c] n"
    using inst(2) by (simp add: queue_abc_entries)
  have 3: "\<exists>m n. m \<le> 3 \<and> n \<le> 3 \<and> lookup_offsets queue_abc 100 105 =
      Inr (Some (entry_boundary [key_a, key_b, key_c] m, entry_boundary [key_a, key_b, key_c] n))"
    using inst(3) [rule_format, OF lk] unfolding lk by auto
  have 4: "deliver_keys (read_at 2 4 (keys_largebuf_of queue_abc)) =
     Inr [Deletion_key key_b, Deletion_key key_c]"
    using inst(4) [rule_format, of 1 3] by (simp add: b)
  from inst(1) 2 3 4 inst(5) show ?thesis
    by (intro conjI) simp_all
qed

end
